theory Spec2Isabelle
  imports Complex_Main
begin

section \<open>Python values used by \<open>Conversation_Manager\<close>\<close>

text \<open>
  A Python \<open>str\<close> is a sequence of Unicode code points, so it is modelled as a list of
  naturals (a code point is below \<open>0x110000\<close>, see \<open>valid_str\<close> below). \<open>str_of\<close>
  embeds an ASCII literal of the source.
\<close>

type_synonym pystr = "nat list"

definition str_of :: "string \<Rightarrow> pystr" where
  "str_of cs = map of_char cs"

text \<open>The exception classes that the source raises, catches or lets through.\<close>

datatype exc =
    FileNotFoundError
  | PermissionError
  | OSError
  | JSONDecodeError
  | TypeError
  | ValueError
  | KeyError
  | IndexError
  | RecursionError
  | APIError

text \<open>
  \<open>except IOError\<close>: \<open>IOError\<close> is \<open>OSError\<close>, the base of \<open>FileNotFoundError\<close> and
  \<open>PermissionError\<close>; the constructor \<open>OSError\<close> stands for its other subclasses
  (\<open>IsADirectoryError\<close>, \<open>NotADirectoryError\<close>, a full disk, ...).
\<close>

definition is_IOError :: "exc \<Rightarrow> bool" where
  "is_IOError e = (e = FileNotFoundError \<or> e = PermissionError \<or> e = OSError)"

text \<open>
  A message is the dict \<open>{"role": ..., "content": ...}\<close>; the transcript
  (\<open>self.conversation_history\<close>) is a list of them. The order of the two keys is not
  kept: Python's equality of dicts does not look at it, and every dict the class
  builds has \<open>role\<close> first.
\<close>

record message =
  role :: pystr
  content :: pystr

definition SYSTEM :: pystr where "SYSTEM = str_of ''system''"
definition USER :: pystr where "USER = str_of ''user''"
definition ASSISTANT :: pystr where "ASSISTANT = str_of ''assistant''"

text \<open>
  What the \<open>print\<close> calls of the source write, one constructor per call. Three calls
  have none, because their handlers are never entered: the one in
  \<open>update_system_message_in_history\<close> (nothing in its \<open>try\<close> raises on a list of
  messages), the one in \<open>load_conversation_history\<close> (see there) and the one in
  \<open>reset_conversation_history\<close> (\<open>save_conversation_history\<close> catches every
  exception itself).
\<close>

datatype diagnostic =
    WarnModelNotFound pystr
  | ErrTotalTokens exc
  | ErrEnforce exc
  | ErrGenerate exc
  | ErrSaveIO exc
  | ErrSave exc

section \<open>\<open>json.dump(self.conversation_history, file, indent=4)\<close>\<close>

text \<open>
  The encoder of the standard library, on the values the source gives it: a list of
  two-key dicts with string values, \<open>indent=4\<close>, \<open>ensure_ascii=True\<close> (the default).
  A character outside \<open>' '..'~'\<close>, a quote and a backslash are escaped; a code point of
  \<open>0x10000\<close> and above is written as a surrogate pair.
\<close>

definition hexdigit :: "nat \<Rightarrow> nat" where
  "hexdigit d = (if d < 10 then 48 + d else 87 + d)"

definition hex4 :: "nat \<Rightarrow> pystr" where
  "hex4 n = [hexdigit (n div 4096 mod 16), hexdigit (n div 256 mod 16),
             hexdigit (n div 16 mod 16), hexdigit (n mod 16)]"

text \<open>
  Code points are written as numbers: 34 is the quote, 92 the backslash, 117 the
  letter u, 110, 114, 116, 102, 98 the letters n, r, t, f, b.
\<close>

definition escape_char :: "nat \<Rightarrow> pystr" where
  "escape_char c =
     (if c = 34 then [92, 34]
      else if c = 92 then [92, 92]
      else if c = 10 then [92, 110]
      else if c = 13 then [92, 114]
      else if c = 9 then [92, 116]
      else if c = 12 then [92, 102]
      else if c = 8 then [92, 98]
      else if 32 \<le> c \<and> c \<le> 126 then [c]
      else if c < 65536 then [92, 117] @ hex4 c
      else (let n = c - 65536;
                s1 = 55296 + (n div 1024) mod 1024;
                s2 = 56320 + n mod 1024
            in [92, 117] @ hex4 s1 @ [92, 117] @ hex4 s2))"

definition encode_basestring_ascii :: "pystr \<Rightarrow> pystr" where
  "encode_basestring_ascii s = 34 # concat (map escape_char s) @ [34]"

definition newline_indent :: "nat \<Rightarrow> pystr" where
  "newline_indent level = 10 # replicate (4 * level) 32"

definition encode_message :: "nat \<Rightarrow> message \<Rightarrow> pystr" where
  "encode_message level m =
     str_of ''{'' @ newline_indent (level + 1)
       @ encode_basestring_ascii (str_of ''role'') @ str_of '': ''
       @ encode_basestring_ascii (role m)
       @ str_of '','' @ newline_indent (level + 1)
       @ encode_basestring_ascii (str_of ''content'') @ str_of '': ''
       @ encode_basestring_ascii (content m)
       @ newline_indent level @ str_of ''}''"

fun encode_items :: "message list \<Rightarrow> pystr" where
  "encode_items [] = []"
| "encode_items [m] = encode_message 1 m"
| "encode_items (m # ms) = encode_message 1 m @ str_of '','' @ newline_indent 1 @ encode_items ms"

definition json_dumps :: "message list \<Rightarrow> pystr" where
  "json_dumps h =
     (if h = [] then str_of ''[]''
      else str_of ''['' @ newline_indent 1 @ encode_items h @ newline_indent 0 @ str_of '']'')"

section \<open>\<open>json.load(file)\<close>\<close>

text \<open>
  The decoder of the standard library with its default arguments (\<open>strict=True\<close>),
  on any text. A JSON object is kept as its pairs in the order read; Python builds
  the dict from them, in which a later pair with the same key wins. A number with a
  fraction or an exponent becomes a Python float: the model keeps its literal.
  The decoder recurses on nested arrays and objects; here the recursion is on fuel,
  with the answer \<open>Deep\<close> when it runs out. Two limits of the interpreter are not
  modelled: its recursion limit, and the limit on the digits of an integer literal.
\<close>

datatype json =
    JNull
  | JBool bool
  | JInt int
  | JFloat pystr
  | JString pystr
  | JArray "json list"
  | JObject "(pystr \<times> json) list"

datatype 'a scan = Ok 'a pystr | Fail | Deep

definition is_ws :: "nat \<Rightarrow> bool" where
  "is_ws c = (c = 32 \<or> c = 9 \<or> c = 10 \<or> c = 13)"

definition skip_ws :: "pystr \<Rightarrow> pystr" where
  "skip_ws s = dropWhile is_ws s"

definition hexval :: "nat \<Rightarrow> nat option" where
  "hexval c =
     (if 48 \<le> c \<and> c \<le> 57 then Some (c - 48)
      else if 97 \<le> c \<and> c \<le> 102 then Some (c - 87)
      else if 65 \<le> c \<and> c \<le> 70 then Some (c - 55)
      else None)"

text \<open>The four hexadecimal digits after \<open>\u\<close>.\<close>

definition decode_uXXXX :: "pystr \<Rightarrow> nat option" where
  "decode_uXXXX s =
     (case s of
        a # b # c # d # _ \<Rightarrow>
          (case (hexval a, hexval b, hexval c, hexval d) of
             (Some x, Some y, Some z, Some w) \<Rightarrow> Some (((x * 16 + y) * 16 + z) * 16 + w)
           | _ \<Rightarrow> None)
      | _ \<Rightarrow> None)"

text \<open>The table \<open>BACKSLASH\<close> of the one-letter escapes.\<close>

definition backslash :: "nat \<Rightarrow> nat option" where
  "backslash esc =
     (if esc = 34 then Some 34
      else if esc = 92 then Some 92
      else if esc = 47 then Some 47
      else if esc = 98 then Some 8
      else if esc = 102 then Some 12
      else if esc = 110 then Some 10
      else if esc = 114 then Some 13
      else if esc = 116 then Some 9
      else None)"

text \<open>
  \<open>scanstring\<close>, from the character after the opening quote, with the characters read
  so far: it returns the string and the text after the closing quote. A \<open>\u\<close> escape
  of a high surrogate that is followed by a \<open>\u\<close> escape of a low surrogate is read
  as the one code point the pair stands for.
\<close>

fun scanstring :: "pystr \<Rightarrow> pystr \<Rightarrow> (pystr \<times> pystr) option" where
  "scanstring [] chunks = None"
| "scanstring (c # s) chunks =
     (if c = 34 then Some (chunks, s)
      else if c = 92 then
        (case s of
           [] \<Rightarrow> None
         | esc # s' \<Rightarrow>
             if esc \<noteq> 117 then
               (case backslash esc of
                  None \<Rightarrow> None
                | Some char \<Rightarrow> scanstring s' (chunks @ [char]))
             else
               (case decode_uXXXX s' of
                  None \<Rightarrow> None
                | Some uni \<Rightarrow>
                    if 55296 \<le> uni \<and> uni \<le> 56319 \<and> take 2 (drop 4 s') = [92, 117] then
                      (case decode_uXXXX (drop 6 s') of
                         None \<Rightarrow> None
                       | Some uni2 \<Rightarrow>
                           if 56320 \<le> uni2 \<and> uni2 \<le> 57343 then
                             scanstring (drop 10 s')
                               (chunks @ [65536 + ((uni - 55296) * 1024 + (uni2 - 56320))])
                           else scanstring (drop 4 s') (chunks @ [uni]))
                    else scanstring (drop 4 s') (chunks @ [uni])))
      else if c < 32 then None
      else scanstring s (chunks @ [c]))"

text \<open>
  The number pattern \<open>(-?(?:0|[1-9][0-9]*))(\.[0-9]+)?([eE][-+]?[0-9]+)?\<close>: each part
  returns the text it matched and the rest.
\<close>

definition is_digit :: "nat \<Rightarrow> bool" where
  "is_digit c = (48 \<le> c \<and> c \<le> 57)"

definition match_integer :: "pystr \<Rightarrow> (pystr \<times> pystr) option" where
  "match_integer s =
     (let sign = (if take 1 s = [45] then [45] else []);
          s1 = drop (length sign) s
      in case s1 of
           [] \<Rightarrow> None
         | d # s2 \<Rightarrow>
             if d = 48 then Some (sign @ [48], s2)
             else if is_digit d then
               Some (sign @ d # takeWhile is_digit s2, dropWhile is_digit s2)
             else None)"

definition match_frac :: "pystr \<Rightarrow> (pystr \<times> pystr) option" where
  "match_frac s =
     (case s of
        dot # d # s' \<Rightarrow>
          if dot = 46 \<and> is_digit d then
            Some (dot # d # takeWhile is_digit s', dropWhile is_digit s')
          else None
      | _ \<Rightarrow> None)"

definition match_exp :: "pystr \<Rightarrow> (pystr \<times> pystr) option" where
  "match_exp s =
     (case s of
        [] \<Rightarrow> None
      | e # s1 \<Rightarrow>
          if e = 101 \<or> e = 69 then
            (let sign = (if take 1 s1 = [43] \<or> take 1 s1 = [45] then take 1 s1 else []);
                 s2 = drop (length sign) s1
             in case s2 of
                  [] \<Rightarrow> None
                | d # s3 \<Rightarrow>
                    if is_digit d then
                      Some (e # sign @ d # takeWhile is_digit s3, dropWhile is_digit s3)
                    else None)
          else None)"

text \<open>\<open>int(integer)\<close> on a matched integer part.\<close>

definition int_of_digits :: "pystr \<Rightarrow> int" where
  "int_of_digits ds = foldl (\<lambda>n d. 10 * n + int (d - 48)) 0 ds"

definition parse_int :: "pystr \<Rightarrow> int" where
  "parse_int integer =
     (if take 1 integer = [45] then - int_of_digits (drop 1 integer)
      else int_of_digits integer)"

definition match_number :: "pystr \<Rightarrow> (json \<times> pystr) option" where
  "match_number s =
     (case match_integer s of
        None \<Rightarrow> None
      | Some (integer, s1) \<Rightarrow>
          (let (frac, s2) = (case match_frac s1 of Some (f, r) \<Rightarrow> (f, r) | None \<Rightarrow> ([], s1));
               (exp, s3) = (case match_exp s2 of Some (x, r) \<Rightarrow> (x, r) | None \<Rightarrow> ([], s2))
           in if frac \<noteq> [] \<or> exp \<noteq> [] then Some (JFloat (integer @ frac @ exp), s3)
              else Some (JInt (parse_int integer), s3)))"

text \<open>
  \<open>scan_once\<close> with the loops of \<open>JSONArray\<close> and \<open>JSONObject\<close>. \<open>array_loop\<close> starts
  at a value, \<open>object_loop\<close> after the opening quote of a key.
\<close>

fun scan_once :: "nat \<Rightarrow> pystr \<Rightarrow> json scan"
  and array_loop :: "nat \<Rightarrow> pystr \<Rightarrow> json list \<Rightarrow> json scan"
  and object_loop :: "nat \<Rightarrow> pystr \<Rightarrow> (pystr \<times> json) list \<Rightarrow> json scan" where
  "scan_once 0 s = Deep"
| "scan_once (Suc n) s =
     (case s of
        [] \<Rightarrow> Fail
      | nextchar # s1 \<Rightarrow>
          if nextchar = 34 then
            (case scanstring s1 [] of
               None \<Rightarrow> Fail
             | Some (str, rest) \<Rightarrow> Ok (JString str) rest)
          else if nextchar = 123 then
            (case (if take 1 s1 = [34] then s1 else skip_ws s1) of
               [] \<Rightarrow> Fail
             | c # s2 \<Rightarrow>
                 if c = 34 then object_loop n s2 []
                 else if c = 125 then Ok (JObject []) s2
                 else Fail)
          else if nextchar = 91 then
            (case skip_ws s1 of
               [] \<Rightarrow> array_loop n [] []
             | c # s2 \<Rightarrow> if c = 93 then Ok (JArray []) s2 else array_loop n (c # s2) [])
          else if nextchar = 110 \<and> take 4 s = str_of ''null'' then Ok JNull (drop 4 s)
          else if nextchar = 116 \<and> take 4 s = str_of ''true'' then Ok (JBool True) (drop 4 s)
          else if nextchar = 102 \<and> take 5 s = str_of ''false'' then Ok (JBool False) (drop 5 s)
          else
            (case match_number s of
               Some (res, rest) \<Rightarrow> Ok res rest
             | None \<Rightarrow>
                 if nextchar = 78 \<and> take 3 s = str_of ''NaN'' then
                   Ok (JFloat (str_of ''NaN'')) (drop 3 s)
                 else if nextchar = 73 \<and> take 8 s = str_of ''Infinity'' then
                   Ok (JFloat (str_of ''Infinity'')) (drop 8 s)
                 else if nextchar = 45 \<and> take 9 s = str_of ''-Infinity'' then
                   Ok (JFloat (str_of ''-Infinity'')) (drop 9 s)
                 else Fail))"
| "array_loop 0 s values = Deep"
| "array_loop (Suc n) s values =
     (case scan_once n s of
        Fail \<Rightarrow> Fail
      | Deep \<Rightarrow> Deep
      | Ok v s1 \<Rightarrow>
          (case skip_ws s1 of
             [] \<Rightarrow> Fail
           | c # s2 \<Rightarrow>
               if c = 93 then Ok (JArray (values @ [v])) s2
               else if c = 44 then array_loop n (skip_ws s2) (values @ [v])
               else Fail))"
| "object_loop 0 s pairs = Deep"
| "object_loop (Suc n) s pairs =
     (case scanstring s [] of
        None \<Rightarrow> Fail
      | Some (key, s1) \<Rightarrow>
          (case skip_ws s1 of
             [] \<Rightarrow> Fail
           | colon # s2 \<Rightarrow>
               if colon \<noteq> 58 then Fail
               else
                 (case scan_once n (skip_ws s2) of
                    Fail \<Rightarrow> Fail
                  | Deep \<Rightarrow> Deep
                  | Ok v s3 \<Rightarrow>
                      (case skip_ws s3 of
                         [] \<Rightarrow> Fail
                       | c # s4 \<Rightarrow>
                           if c = 125 then Ok (JObject (pairs @ [(key, v)])) s4
                           else if c = 44 then
                             (case skip_ws s4 of
                                [] \<Rightarrow> Fail
                              | q # s5 \<Rightarrow>
                                  if q = 34 then object_loop n s5 (pairs @ [(key, v)])
                                  else Fail)
                           else Fail))))"

text \<open>
  \<open>json.loads\<close>: a text that starts with a byte order mark is refused, the value may
  have blanks around it and nothing else after it. The fuel is twice the length of
  the text and one, which is enough for every text (\<open>json_loads_fuel\<close> below).
\<close>

definition json_loads :: "pystr \<Rightarrow> exc + json" where
  "json_loads s =
     (if take 1 s = [65279] then Inl JSONDecodeError
      else
        (case scan_once (2 * length s + 1) (skip_ws s) of
           Fail \<Rightarrow> Inl JSONDecodeError
         | Deep \<Rightarrow> Inl RecursionError
         | Ok obj rest \<Rightarrow> if skip_ws rest = [] then Inr obj else Inl JSONDecodeError))"

text \<open>
  A decoded value is a transcript when it is a list of dicts whose keys are \<open>role\<close>
  and \<open>content\<close> and whose values are strings.
\<close>

definition message_of :: "json \<Rightarrow> message option" where
  "message_of v =
     (case v of
        JObject pairs \<Rightarrow>
          if set (map fst pairs) = {str_of ''role'', str_of ''content''} then
            (case (map_of (rev pairs) (str_of ''role''),
                   map_of (rev pairs) (str_of ''content'')) of
               (Some (JString r), Some (JString c)) \<Rightarrow> Some \<lparr>role = r, content = c\<rparr>
             | _ \<Rightarrow> None)
          else None
      | _ \<Rightarrow> None)"

fun messages_of :: "json list \<Rightarrow> message list option" where
  "messages_of [] = Some []"
| "messages_of (v # vs) =
     (case message_of v of
        None \<Rightarrow> None
      | Some m \<Rightarrow> (case messages_of vs of None \<Rightarrow> None | Some ms \<Rightarrow> Some (m # ms)))"

definition transcript_of :: "json \<Rightarrow> message list option" where
  "transcript_of v = (case v of JArray vs \<Rightarrow> messages_of vs | _ \<Rightarrow> None)"

section \<open>The file system and the two services\<close>

text \<open>
  The class makes four calls to the operating system: \<open>os.path.exists\<close> and
  \<open>os.makedirs\<close> on the history folder, \<open>open(path, "r")\<close> and \<open>open(path, "w")\<close> on the
  history file. Whether a call succeeds is decided by the operating system (folders on
  the way, links, permissions of the file and of its folder, room on the disk), and
  reading and writing are decided separately; so the file system is the texts of the
  files together with the answer to each call:

  \<^item> \<open>stored\<close>: the text of the file at a path, if there is a file;
  \<^item> \<open>read_error\<close>: the exception that opening the path for reading, or reading it,
    raises for a reason other than the plain absence of the file (\<open>PermissionError\<close> for
    a file that may not be read, \<open>FileNotFoundError\<close> under a missing folder, ...);
  \<^item> \<open>write_to\<close>: what writing a text to the path does, see \<open>write_outcome\<close>;
  \<^item> \<open>exists\<close>: the answer of \<open>os.path.exists\<close> to a non-empty path;
  \<^item> \<open>makedirs_error\<close>: the exception \<open>os.makedirs\<close> raises on a non-empty path, if any.
\<close>

text \<open>
  The block \<open>with open(path, "w") as file: json.dump(..., file, ...)\<close> writes the text;
  or \<open>open\<close> raises and the file is as before (\<open>FileNotFoundError\<close> when the folder of
  the path is missing, \<open>PermissionError\<close> when the file or its folder may not be written,
  also for a file that can be read); or \<open>open\<close> succeeds, which empties the file, and
  the writing raises, which leaves some text \<open>partial\<close> in the file.
\<close>

datatype write_outcome = Written | OpenFails exc | WriteFails exc pystr

record filesystem =
  stored :: "pystr \<Rightarrow> pystr option"
  read_error :: "pystr \<Rightarrow> exc option"
  write_to :: "pystr \<Rightarrow> pystr \<Rightarrow> write_outcome"
  exists :: "pystr \<Rightarrow> bool"
  makedirs_error :: "pystr \<Rightarrow> exc option"

text \<open>\<open>with open(path, "r") as file\<close> and the \<open>file.read()\<close> inside \<open>json.load\<close>.\<close>

definition read_text :: "filesystem \<Rightarrow> pystr \<Rightarrow> exc + pystr" where
  "read_text fs path =
     (case read_error fs path of
        Some e \<Rightarrow> Inl e
      | None \<Rightarrow>
          (case stored fs path of
             None \<Rightarrow> Inl FileNotFoundError
           | Some wording \<Rightarrow> Inr wording))"

text \<open>The exception of the writing block, if any, and the file system after it.\<close>

definition write_text :: "filesystem \<Rightarrow> pystr \<Rightarrow> pystr \<Rightarrow> exc option \<times> filesystem" where
  "write_text fs path wording =
     (case write_to fs path wording of
        Written \<Rightarrow> (None, fs\<lparr>stored := (stored fs)(path \<mapsto> wording)\<rparr>)
      | OpenFails e \<Rightarrow> (Some e, fs)
      | WriteFails e partial \<Rightarrow> (Some e, fs\<lparr>stored := (stored fs)(path \<mapsto> partial)\<rparr>))"

text \<open>
  \<open>os.path.exists\<close> is false of the empty path, and \<open>os.makedirs\<close> raises
  \<open>FileNotFoundError\<close> on it, whatever the file system.
\<close>

definition os_path_exists :: "filesystem \<Rightarrow> pystr \<Rightarrow> bool" where
  "os_path_exists fs path = (path \<noteq> [] \<and> exists fs path)"

definition os_makedirs :: "filesystem \<Rightarrow> pystr \<Rightarrow> exc + filesystem" where
  "os_makedirs fs path =
     (if path = [] then Inl FileNotFoundError
      else
        (case makedirs_error fs path of
           Some e \<Rightarrow> Inl e
         | None \<Rightarrow> Inr (fs\<lparr>exists := (exists fs)(path := True)\<rparr>)))"

text \<open>
  The libraries the class calls are parameters. \<open>OpenAI\<close> is the constructor of the
  client, \<open>OpenAI(api_key=api_key)\<close>, with the exception it raises, if any.
  \<open>encoding_for_model\<close> is \<open>tiktoken.encoding_for_model\<close> (raising \<open>KeyError\<close> for a
  model it does not know) followed by \<open>len(encoding.encode(text))\<close>; \<open>create\<close> is
  \<open>client.chat.completions.create\<close>, returning the contents of \<open>response.choices\<close>.
\<close>

record env =
  OpenAI :: "pystr \<Rightarrow> exc option"
  encoding_for_model :: "pystr \<Rightarrow> exc + (pystr \<Rightarrow> exc + nat)"
  create :: "pystr \<Rightarrow> message list \<Rightarrow> real \<Rightarrow> int \<Rightarrow> exc + pystr list"

section \<open>The state of a \<open>Conversation_Manager\<close>\<close>

text \<open>
  The attributes of \<open>self\<close> (but the client, which holds no state of the model), and
  the two parts of the world the methods act on: the file system and what has been
  printed.
\<close>

record state =
  base_url :: pystr
  history_file :: pystr
  default_model :: pystr
  default_temperature :: real
  default_max_tokens :: int
  token_budget :: int
  system_messages :: "pystr \<rightharpoonup> pystr"
  system_message :: pystr
  conversation_history :: "message list"
  files :: filesystem
  stdout :: "diagnostic list"

definition print :: "diagnostic \<Rightarrow> state \<Rightarrow> state" where
  "print d s = s\<lparr>stdout := stdout s @ [d]\<rparr>"

section \<open>Token counting and the token budget\<close>

text \<open>\<open>count_tokens\<close> returns the count, or the exception it lets through, and what it printed.\<close>

definition count_tokens :: "env \<Rightarrow> state \<Rightarrow> pystr \<Rightarrow> (exc + nat) \<times> diagnostic list" where
  "count_tokens ev s text =
     (case encoding_for_model ev (default_model s) of
        Inr encoding \<Rightarrow> (encoding text, [])
      | Inl e \<Rightarrow>
          if e = KeyError then
            (case encoding_for_model ev (str_of ''gpt-3.5-turbo'') of
               Inr encoding \<Rightarrow> (encoding text, [WarnModelNotFound (default_model s)])
             | Inl e' \<Rightarrow> (Inl e', [WarnModelNotFound (default_model s)]))
          else (Inl e, []))"

text \<open>The \<open>for\<close> loop of \<open>total_tokens_used\<close>, with the running sum \<open>acc\<close>.\<close>

fun sum_loop :: "env \<Rightarrow> state \<Rightarrow> message list \<Rightarrow> int \<Rightarrow> (exc + int) \<times> diagnostic list" where
  "sum_loop ev s [] acc = (Inr acc, [])"
| "sum_loop ev s (m # ms) acc =
     (case count_tokens ev s (content m) of
        (Inl e, out) \<Rightarrow> (Inl e, out)
      | (Inr n, out) \<Rightarrow>
          (case sum_loop ev s ms (acc + int n) of (r, out') \<Rightarrow> (r, out @ out')))"

text \<open>\<open>None\<close> is the \<open>return None\<close> of the \<open>except Exception\<close> branch.\<close>

definition total_tokens_used :: "env \<Rightarrow> state \<Rightarrow> int option \<times> diagnostic list" where
  "total_tokens_used ev s =
     (case sum_loop ev s (conversation_history s) 0 of
        (Inr used, out) \<Rightarrow> (Some used, out)
      | (Inl e, out) \<Rightarrow> (None, out @ [ErrTotalTokens e]))"

text \<open>\<open>list.pop(i)\<close> for \<open>i \<ge> 0\<close>.\<close>

definition pop :: "nat \<Rightarrow> 'a list \<Rightarrow> exc + ('a \<times> 'a list)" where
  "pop i xs =
     (if i < length xs then Inr (xs ! i, take i xs @ drop (Suc i) xs) else Inl IndexError)"

text \<open>
  The \<open>while\<close> loop of \<open>enforce_token_budget\<close>. Comparing the \<open>None\<close> of
  \<open>total_tokens_used\<close> with the budget raises \<open>TypeError\<close>, which the \<open>except Exception\<close>
  around the loop prints.
\<close>

function enforce_token_budget :: "env \<Rightarrow> state \<Rightarrow> state" where
  "enforce_token_budget ev s =
     (case total_tokens_used ev s of
        (None, out) \<Rightarrow> s\<lparr>stdout := stdout s @ out @ [ErrEnforce TypeError]\<rparr>
      | (Some used, out) \<Rightarrow>
          if used > token_budget s then
            (if length (conversation_history s) \<le> 1 then s\<lparr>stdout := stdout s @ out\<rparr>
             else
               (case pop 1 (conversation_history s) of
                  Inl e \<Rightarrow> s\<lparr>stdout := stdout s @ out @ [ErrEnforce e]\<rparr>
                | Inr (_, rest) \<Rightarrow>
                    enforce_token_budget ev
                      (s\<lparr>stdout := stdout s @ out, conversation_history := rest\<rparr>)))
          else s\<lparr>stdout := stdout s @ out\<rparr>)"
  by pat_completeness auto
termination
  by (relation "measure (\<lambda>(ev, s). length (conversation_history s))")
     (auto simp: pop_def split: if_splits)

declare enforce_token_budget.simps [simp del]

text \<open>
  The loop goes round once more on transcript \<open>h\<close>: the total is a number above the
  budget and \<open>h\<close> has more than one entry.
\<close>

definition evicting :: "env \<Rightarrow> state \<Rightarrow> message list \<Rightarrow> bool" where
  "evicting ev s h =
     (case fst (total_tokens_used ev (s\<lparr>conversation_history := h\<rparr>)) of
        None \<Rightarrow> False
      | Some used \<Rightarrow> used > token_budget s \<and> length h > 1)"

section \<open>Personas\<close>

definition update_system_message_in_history :: "state \<Rightarrow> state" where
  "update_system_message_in_history s =
     (if conversation_history s \<noteq> [] \<and> role (conversation_history s ! 0) = SYSTEM then
        s\<lparr>conversation_history :=
            (conversation_history s)
              [0 := (conversation_history s ! 0)\<lparr>content := system_message s\<rparr>]\<rparr>
      else
        s\<lparr>conversation_history :=
            \<lparr>role = SYSTEM, content = system_message s\<rparr> # conversation_history s\<rparr>)"

definition set_persona :: "pystr \<Rightarrow> state \<Rightarrow> (exc + unit) \<times> state" where
  "set_persona persona s =
     (case system_messages s persona of
        Some text \<Rightarrow> (Inr (), update_system_message_in_history (s\<lparr>system_message := text\<rparr>))
      | None \<Rightarrow> (Inl ValueError, s))"

definition set_custom_system_message :: "pystr \<Rightarrow> state \<Rightarrow> (exc + unit) \<times> state" where
  "set_custom_system_message custom_message s =
     (if custom_message = [] then (Inl ValueError, s)
      else set_persona (str_of ''custom'')
             (s\<lparr>system_messages := (system_messages s)(str_of ''custom'' \<mapsto> custom_message)\<rparr>))"

section \<open>Saving, resetting and the chat turn\<close>

text \<open>
  \<open>save_conversation_history\<close>: the writing block, and the two handlers, which print
  and return.
\<close>

definition save_conversation_history :: "state \<Rightarrow> state" where
  "save_conversation_history s =
     (case write_text (files s) (history_file s) (json_dumps (conversation_history s)) of
        (None, fs) \<Rightarrow> s\<lparr>files := fs\<rparr>
      | (Some e, fs) \<Rightarrow>
          if is_IOError e then print (ErrSaveIO e) (s\<lparr>files := fs\<rparr>)
          else print (ErrSave e) (s\<lparr>files := fs\<rparr>))"

definition reset_conversation_history :: "state \<Rightarrow> state" where
  "reset_conversation_history s =
     save_conversation_history
       (s\<lparr>conversation_history := [\<lparr>role = SYSTEM, content = system_message s\<rparr>]\<rparr>)"

text \<open>
  \<open>chat_completion\<close> returns \<open>Inr (Some text)\<close> for the answer, \<open>Inr None\<close> for the
  \<open>return None\<close> of the \<open>except\<close> branch, and \<open>Inl\<close> for an exception it lets through
  (\<open>response.choices[0]\<close> stands outside the \<open>try\<close>).
\<close>

definition resolve :: "'a option \<Rightarrow> 'a \<Rightarrow> 'a" where
  "resolve given dflt = (case given of Some x \<Rightarrow> x | None \<Rightarrow> dflt)"

text \<open>The first two statements of the body: append the user's message, enforce the budget.\<close>

definition append_prompt :: "env \<Rightarrow> pystr \<Rightarrow> state \<Rightarrow> state" where
  "append_prompt ev prompt s =
     enforce_token_budget ev
       (s\<lparr>conversation_history :=
            conversation_history s @ [\<lparr>role = USER, content = prompt\<rparr>]\<rparr>)"

definition chat_completion ::
  "env \<Rightarrow> pystr \<Rightarrow> real option \<Rightarrow> int option \<Rightarrow> pystr option \<Rightarrow> state
     \<Rightarrow> (exc + pystr option) \<times> state" where
  "chat_completion ev prompt temperature max_tokens model s =
     (let temperature' = resolve temperature (default_temperature s);
          max_tokens' = resolve max_tokens (default_max_tokens s);
          model' = resolve model (default_model s);
          s2 = append_prompt ev prompt s
      in case create ev model' (conversation_history s2) temperature' max_tokens' of
           Inl e \<Rightarrow> (Inr None, print (ErrGenerate e) s2)
         | Inr choices \<Rightarrow>
             (case choices of
                [] \<Rightarrow> (Inl IndexError, s2)
              | ai_response # _ \<Rightarrow>
                  (Inr (Some ai_response),
                   save_conversation_history
                     (s2\<lparr>conversation_history :=
                           conversation_history s2
                             @ [\<lparr>role = ASSISTANT, content = ai_response\<rparr>]\<rparr>))))"

section \<open>The transcript invariants\<close>

text \<open>
  The transcript is not empty, and a message with role \<open>system\<close> can only stand at
  index 0 (so there is at most one).
\<close>

definition transcript_inv :: "message list \<Rightarrow> bool" where
  "transcript_inv h = (h \<noteq> [] \<and> (\<forall>i<length h. role (h ! i) = SYSTEM \<longrightarrow> i = 0))"

section \<open>The persona table and a manager with the default arguments\<close>

text \<open>The dict that \<open>__init__\<close> stores in \<open>self.system_messages\<close>.\<close>

definition normal_assistant_text :: pystr where
  "normal_assistant_text =
     str_of ''You are a normal, cooperative assistant that does what they are told.''"

definition initial_system_messages :: "pystr \<rightharpoonup> pystr" where
  "initial_system_messages =
     map_of
       [(str_of ''normal_assistant'', normal_assistant_text),
        (str_of ''sassy_assistant'',
         str_of ''You are a sassy assistant that is fed up with answering questions.''),
        (str_of ''angry_assistant'',
         str_of ''You are an angry assistant that likes yelling in all caps.''),
        (str_of ''thoughtful_assistant'',
         str_of ''You are a thoughtful assistant, always ready to dig deeper. You ask clarifying questions to ensure understanding and approach problems with a step-by-step methodology.''),
        (str_of ''custom'', str_of ''Enter your custom system message here.'')]"

text \<open>The keys of the built-in personas; \<open>custom\<close> is the one entry a method overwrites.\<close>

definition builtin_personas :: "pystr list" where
  "builtin_personas =
     [str_of ''normal_assistant'', str_of ''sassy_assistant'',
      str_of ''angry_assistant'', str_of ''thoughtful_assistant'']"

definition builtin_intact :: "state \<Rightarrow> bool" where
  "builtin_intact s =
     (\<forall>name \<in> set builtin_personas. system_messages s name = initial_system_messages name)"

section \<open>Loading the history and constructing a manager\<close>

text \<open>
  \<open>load_conversation_history\<close> ends in one of three ways: the transcript is set to a
  list of messages; \<open>self.conversation_history\<close> is set to a decoded value that is no
  such list (the model follows that manager no further); or an exception leaves the
  method. The first \<open>except\<close> clause catches \<open>FileNotFoundError\<close>. The second names
  \<open>json.JSONDecoder\<close>, a class that is no exception class: matching any other
  exception against it raises \<open>TypeError\<close>, and its body is never run.
\<close>

datatype loaded = Loaded state | Untyped json | Raised exc

definition load_conversation_history :: "state \<Rightarrow> loaded" where
  "load_conversation_history s =
     (case (case read_text (files s) (history_file s) of
              Inl e \<Rightarrow> Inl e
            | Inr wording \<Rightarrow> json_loads wording) of
        Inr v \<Rightarrow>
          (case transcript_of v of
             Some h \<Rightarrow> Loaded (s\<lparr>conversation_history := h\<rparr>)
           | None \<Rightarrow> Untyped v)
      | Inl e \<Rightarrow>
          if e = FileNotFoundError then
            Loaded (s\<lparr>conversation_history := [\<lparr>role = SYSTEM, content = system_message s\<rparr>]\<rparr>)
          else Raised TypeError)"

text \<open>\<open>os.path.join\<close> of two parts, on POSIX.\<close>

definition os_path_join :: "pystr \<Rightarrow> pystr \<Rightarrow> pystr" where
  "os_path_join a b =
     (if take 1 b = [47] then b
      else if a = [] \<or> last a = 47 then a @ b
      else a @ [47] @ b)"

text \<open>
  \<open>__init__\<close>. The arguments are the libraries, those of the source, then the formatted
  time of the call, the file system and what has been printed so far. The statements
  before \<open>load_conversation_history\<close> stand in no \<open>try\<close>: an exception of the client's
  constructor or of \<open>os.makedirs\<close> leaves \<open>__init__\<close>.
\<close>

definition history_path :: "pystr \<Rightarrow> pystr option \<Rightarrow> pystr \<Rightarrow> pystr" where
  "history_path history_folder history_file' timestamp =
     (case history_file' of
        None \<Rightarrow>
          os_path_join history_folder
            (str_of ''conversation_history_'' @ timestamp @ str_of ''.json'')
      | Some name \<Rightarrow> os_path_join history_folder name)"

definition Conversation_Manager ::
  "env \<Rightarrow> pystr \<Rightarrow> pystr \<Rightarrow> pystr \<Rightarrow> pystr option \<Rightarrow> pystr \<Rightarrow> real \<Rightarrow> int \<Rightarrow> int
     \<Rightarrow> pystr \<Rightarrow> filesystem \<Rightarrow> diagnostic list \<Rightarrow> loaded" where
  "Conversation_Manager ev api_key base_url' history_folder history_file' default_model'
     default_temperature' default_max_tokens' token_budget' timestamp fs out =
     (case OpenAI ev api_key of
        Some e \<Rightarrow> Raised e
      | None \<Rightarrow>
          (case (if \<not> os_path_exists fs history_folder then os_makedirs fs history_folder
                 else Inr fs) of
             Inl e \<Rightarrow> Raised e
           | Inr fs' \<Rightarrow>
               load_conversation_history
                 \<lparr>base_url = base_url',
                  history_file = history_path history_folder history_file' timestamp,
                  default_model = default_model',
                  default_temperature = default_temperature',
                  default_max_tokens = default_max_tokens',
                  token_budget = token_budget',
                  system_messages = initial_system_messages,
                  system_message = normal_assistant_text,
                  conversation_history = [],
                  files = fs',
                  stdout = out\<rparr>))"

text \<open>
  What a string must satisfy to be written and read back unchanged: its elements are
  code points, and no high surrogate (\<open>0xD800..0xDBFF\<close>) is directly followed by a
  low surrogate (\<open>0xDC00..0xDFFF\<close>).
\<close>

definition valid_str :: "pystr \<Rightarrow> bool" where
  "valid_str s = list_all (\<lambda>c. c < 1114112) s"

fun no_surrogate_pair :: "pystr \<Rightarrow> bool" where
  "no_surrogate_pair (a # b # s) =
     (\<not> (55296 \<le> a \<and> a \<le> 56319 \<and> 56320 \<le> b \<and> b \<le> 57343) \<and> no_surrogate_pair (b # s))"
| "no_surrogate_pair s = True"

definition storable :: "message \<Rightarrow> bool" where
  "storable m =
     (valid_str (role m) \<and> no_surrogate_pair (role m)
      \<and> valid_str (content m) \<and> no_surrogate_pair (content m))"

text \<open>
  What a string is read back as: from left to right, every high surrogate directly
  followed by a low surrogate is replaced, together with it, by the one code point the
  two encode in UTF-16.
\<close>

fun merge_pairs :: "pystr \<Rightarrow> pystr" where
  "merge_pairs [] = []"
| "merge_pairs [a] = [a]"
| "merge_pairs (a # b # s) =
     (if 55296 \<le> a \<and> a \<le> 56319 \<and> 56320 \<le> b \<and> b \<le> 57343
      then (65536 + ((a - 55296) * 1024 + (b - 56320))) # merge_pairs s
      else a # merge_pairs (b # s))"

definition merged :: "message \<Rightarrow> message" where
  "merged m = \<lparr>role = merge_pairs (role m), content = merge_pairs (content m)\<rparr>"

text \<open>
  A tokenizer that knows one model and counts one token per code point, with a
  completion service that is down, and one that answers.
\<close>

definition one_model :: "pystr \<Rightarrow> exc + (pystr \<Rightarrow> exc + nat)" where
  "one_model model =
     (if model = str_of ''gpt-3.5-turbo'' then Inr (\<lambda>text. Inr (length text)) else Inl KeyError)"

definition env_down :: env where
  "env_down = \<lparr>OpenAI = (\<lambda>api_key. None),
               encoding_for_model = one_model,
               create = (\<lambda>model messages temperature max_tokens. Inl APIError)\<rparr>"

definition env_up :: env where
  "env_up = \<lparr>OpenAI = (\<lambda>api_key. None),
             encoding_for_model = one_model,
             create = (\<lambda>model messages temperature max_tokens. Inr [str_of ''hello''])\<rparr>"

text \<open>
  A file system for the examples: no file and no folder yet; every folder can be made,
  and of all paths the one history file of the examples can be written (a file directly
  in the folder \<open>Past_Conversations\<close> that \<open>__init__\<close> makes).
\<close>

definition example_file :: pystr where
  "example_file = str_of ''Past_Conversations/conversation_history_010124_120000.json''"

definition bare_disk :: filesystem where
  "bare_disk =
     \<lparr>stored = (\<lambda>path. None),
      read_error = (\<lambda>path. None),
      write_to = (\<lambda>path wording. if path = example_file then Written
                                   else OpenFails FileNotFoundError),
      exists = (\<lambda>path. False),
      makedirs_error = (\<lambda>path. None)\<rparr>"



text \<open>
  The manager that \<open>Conversation_Manager(api_key)\<close> builds on \<open>bare_disk\<close>: the folder has
  been made, no history file exists.
\<close>

definition fresh_state :: state where
  "fresh_state =
     \<lparr>base_url = str_of ''https://api.openai.com/v1'',
      history_file = example_file,
      default_model = str_of ''gpt-3.5-turbo'',
      default_temperature = 7 / 10,
      default_max_tokens = 150,
      token_budget = 4096,
      system_messages = initial_system_messages,
      system_message = normal_assistant_text,
      conversation_history = [\<lparr>role = SYSTEM, content = normal_assistant_text\<rparr>],
      files = bare_disk\<lparr>exists := (exists bare_disk)(str_of ''Past_Conversations'' := True)\<rparr>,
      stdout = []\<rparr>"

text \<open>
  States for the examples: a transcript over a budget of 18, a budget of 50, and a
  transcript whose one message holds a high surrogate followed by a low one.
\<close>

definition pair_state :: state where
  "pair_state =
     fresh_state\<lparr>conversation_history := [\<lparr>role = USER, content = [55357, 56832]\<rparr>]\<rparr>"

definition busy_state :: state where
  "busy_state =
     fresh_state
       \<lparr>token_budget := 18,
        system_message := str_of ''Be brief.'',
        conversation_history :=
          [\<lparr>role = SYSTEM, content = str_of ''Be brief.''\<rparr>,
           \<lparr>role = USER, content = str_of ''hello''\<rparr>,
           \<lparr>role = ASSISTANT, content = str_of ''hi there''\<rparr>]\<rparr>"

definition tight_state :: state where
  "tight_state = fresh_state\<lparr>token_budget := 50\<rparr>"

section \<open>Notions for the round trip through the history file\<close>

text \<open>The four ways the encoder writes a code point.\<close>

definition short_escaped :: "nat \<Rightarrow> bool" where
  "short_escaped c = (c = 34 \<or> c = 92 \<or> c = 10 \<or> c = 13 \<or> c = 9 \<or> c = 12 \<or> c = 8)"

definition literal :: "nat \<Rightarrow> bool" where
  "literal c = (32 \<le> c \<and> c \<le> 126 \<and> c \<noteq> 34 \<and> c \<noteq> 92)"

text \<open>
  \<open>reads_back x y\<close>: the decoder reads what the encoder wrote for the string \<open>x\<close>
  as the string \<open>y\<close>.
\<close>

definition reads_back :: "pystr \<Rightarrow> pystr \<Rightarrow> bool" where
  "reads_back x y =
     (\<forall>chunks rest.
        scanstring (concat (map escape_char x) @ 34 # rest) chunks = Some (chunks @ y, rest))"

text \<open>The value the decoder builds for the dict of a message.\<close>

definition json_of_message :: "message \<Rightarrow> json" where
  "json_of_message m =
     JObject [(str_of ''role'', JString (role m)), (str_of ''content'', JString (content m))]"

definition message_reads_back :: "message \<Rightarrow> message \<Rightarrow> bool" where
  "message_reads_back m m' =
     (reads_back (role m) (role m') \<and> reads_back (content m) (content m'))"

section \<open>Facts about literals\<close>

lemma str_of_eq_iff [simp]: "str_of a = str_of b \<longleftrightarrow> a = b"
  unfolding str_of_def by (rule inj_map_eq_map) (rule inj_of_char)

lemma str_of_Nil [simp]: "str_of [] = []"
  by (simp add: str_of_def)

lemma str_of_eq_Nil [simp]: "str_of a = [] \<longleftrightarrow> a = []"
  by (simp add: str_of_def)

lemma roles_distinct [simp]:
  "USER \<noteq> SYSTEM" "ASSISTANT \<noteq> SYSTEM" "SYSTEM \<noteq> USER" "SYSTEM \<noteq> ASSISTANT"
  by (simp_all add: USER_def SYSTEM_def ASSISTANT_def)

section \<open>Personas: unknown names, built-in names, custom text\<close>

lemma update_system_message_in_history_head:
  "conversation_history (update_system_message_in_history s) \<noteq> []
   \<and> role (conversation_history (update_system_message_in_history s) ! 0) = SYSTEM
   \<and> content (conversation_history (update_system_message_in_history s) ! 0) = system_message s"
  by (cases "conversation_history s") (auto simp: update_system_message_in_history_def)

lemma update_system_message_in_history_frame:
  "system_message (update_system_message_in_history s) = system_message s"
  "system_messages (update_system_message_in_history s) = system_messages s"
  "files (update_system_message_in_history s) = files s"
  "stdout (update_system_message_in_history s) = stdout s"
  by (simp_all add: update_system_message_in_history_def)

text \<open>
  C9. For a name that is no key of the persona table, \<open>set_persona\<close> raises
  \<open>ValueError\<close> (the source's class for the unknown-persona error) and the state
  after the call is the state before it: active system message, transcript and all
  the rest.
\<close>

theorem set_persona_unknown:
  "name \<notin> dom (system_messages s) \<Longrightarrow> set_persona name s = (Inl ValueError, s)"
  by (auto simp: set_persona_def dom_def split: option.splits)

theorem set_persona_unknown_witness:
  "str_of ''nonexistent'' \<notin> dom (system_messages fresh_state)
   \<and> set_persona (str_of ''nonexistent'') fresh_state = (Inl ValueError, fresh_state)"
proof -
  have absent: "str_of ''nonexistent'' \<notin> dom (system_messages fresh_state)"
    by (simp add: fresh_state_def initial_system_messages_def dom_def)
  from set_persona_unknown [OF absent] absent show ?thesis by simp
qed

lemma builtin_personas_known:
  "name \<in> set builtin_personas \<Longrightarrow> \<exists>text. initial_system_messages name = Some text"
  by (auto simp: builtin_personas_def initial_system_messages_def)

lemma builtin_intact_fresh_state: "builtin_intact fresh_state"
  by (simp add: builtin_intact_def fresh_state_def)

text \<open>
  C8. For each of the four built-in persona names, in a state whose built-in table
  entries are the ones \<open>__init__\<close> stored, \<open>set_persona\<close> returns normally, the
  transcript's entry at index 0 has role \<open>system\<close> and the table's text for that
  name as content, and \<open>self.system_message\<close> is that same text.
\<close>

theorem set_persona_builtin:
  assumes "name \<in> set builtin_personas" and "builtin_intact s"
  shows "\<exists>text. initial_system_messages name = Some text
           \<and> fst (set_persona name s) = Inr ()
           \<and> conversation_history (snd (set_persona name s)) \<noteq> []
           \<and> role (conversation_history (snd (set_persona name s)) ! 0) = SYSTEM
           \<and> content (conversation_history (snd (set_persona name s)) ! 0) = text
           \<and> system_message (snd (set_persona name s)) = text"
proof -
  from assms(1) obtain wording where wording: "initial_system_messages name = Some wording"
    using builtin_personas_known by blast
  with assms have entry: "system_messages s name = Some wording"
    by (simp add: builtin_intact_def)
  let ?s1 = "s\<lparr>system_message := wording\<rparr>"
  have call: "set_persona name s = (Inr (), update_system_message_in_history ?s1)"
    by (simp add: set_persona_def entry)
  have "system_message ?s1 = wording" by simp
  with update_system_message_in_history_head [of ?s1]
       update_system_message_in_history_frame(1) [of ?s1] wording call
  show ?thesis by simp
qed

theorem set_persona_builtin_witness:
  "str_of ''sassy_assistant'' \<in> set builtin_personas \<and> builtin_intact fresh_state
   \<and> (\<exists>text. initial_system_messages (str_of ''sassy_assistant'') = Some text
         \<and> fst (set_persona (str_of ''sassy_assistant'') fresh_state) = Inr ()
         \<and> conversation_history (snd (set_persona (str_of ''sassy_assistant'') fresh_state)) \<noteq> []
         \<and> role (conversation_history
                   (snd (set_persona (str_of ''sassy_assistant'') fresh_state)) ! 0) = SYSTEM
         \<and> content (conversation_history
                      (snd (set_persona (str_of ''sassy_assistant'') fresh_state)) ! 0) = text
         \<and> system_message (snd (set_persona (str_of ''sassy_assistant'') fresh_state)) = text)"
proof -
  have name: "str_of ''sassy_assistant'' \<in> set builtin_personas"
    by (simp add: builtin_personas_def)
  from set_persona_builtin [OF name builtin_intact_fresh_state] name builtin_intact_fresh_state
  show ?thesis by simp
qed

text \<open>
  C2, as the code has it. The check is \<open>if not custom_message\<close>, which only the empty
  string fails: for the empty string the method raises \<open>ValueError\<close> and the state is
  unchanged. Any other text, one of blanks only included, is stored as the
  \<open>custom\<close> entry, becomes \<open>self.system_message\<close> and the content of the system message
  at index 0 of the transcript.
\<close>

theorem set_custom_system_message_empty_only:
  "(custom_message = [] \<longrightarrow>
      set_custom_system_message custom_message s = (Inl ValueError, s))
   \<and> (custom_message \<noteq> [] \<longrightarrow>
        fst (set_custom_system_message custom_message s) = Inr ()
        \<and> system_messages (snd (set_custom_system_message custom_message s))
            = (system_messages s)(str_of ''custom'' \<mapsto> custom_message)
        \<and> system_message (snd (set_custom_system_message custom_message s)) = custom_message
        \<and> conversation_history (snd (set_custom_system_message custom_message s)) \<noteq> []
        \<and> role (conversation_history (snd (set_custom_system_message custom_message s)) ! 0)
            = SYSTEM
        \<and> content (conversation_history (snd (set_custom_system_message custom_message s)) ! 0)
            = custom_message)"
proof (cases "custom_message = []")
  case True
  then show ?thesis by (simp add: set_custom_system_message_def)
next
  case False
  let ?s0 = "s\<lparr>system_messages := (system_messages s)(str_of ''custom'' \<mapsto> custom_message)\<rparr>"
  let ?s1 = "?s0\<lparr>system_message := custom_message\<rparr>"
  have call: "set_custom_system_message custom_message s
                = (Inr (), update_system_message_in_history ?s1)"
    using False by (simp add: set_custom_system_message_def set_persona_def)
  have "system_message ?s1 = custom_message"
    and "system_messages ?s1 = (system_messages s)(str_of ''custom'' \<mapsto> custom_message)"
    by simp_all
  with update_system_message_in_history_head [of ?s1]
       update_system_message_in_history_frame(1,2) [of ?s1] call False
  show ?thesis by simp
qed

theorem set_custom_system_message_empty_only_witness:
  "set_custom_system_message [] fresh_state = (Inl ValueError, fresh_state)
   \<and> fst (set_custom_system_message (str_of ''Be brief.'') fresh_state) = Inr ()
   \<and> system_message (snd (set_custom_system_message (str_of ''Be brief.'') fresh_state))
       = str_of ''Be brief.''"
  using set_custom_system_message_empty_only [of "[]" fresh_state]
        set_custom_system_message_empty_only [of "str_of ''Be brief.''" fresh_state]
  by simp

text \<open>
  Three blanks are not rejected: the call returns normally and the active system
  message changes.
\<close>

theorem set_custom_system_message_blank_counterexample:
  "fst (set_custom_system_message (str_of ''   '') fresh_state) \<noteq> Inl ValueError
   \<and> system_message (snd (set_custom_system_message (str_of ''   '') fresh_state))
       \<noteq> system_message fresh_state
   \<and> conversation_history (snd (set_custom_system_message (str_of ''   '') fresh_state))
       \<noteq> conversation_history fresh_state"
  by (simp add: set_custom_system_message_def set_persona_def
        update_system_message_in_history_def fresh_state_def normal_assistant_text_def)

section \<open>Reset\<close>

text \<open>
  C10. Whatever the transcript was, after \<open>reset_conversation_history\<close> it is the
  one-element list holding a system message with \<open>self.system_message\<close> as content,
  and the method has saved it: when the write succeeds, the history file holds the JSON
  text of that one-element transcript and nothing is printed; when the file cannot be
  opened for writing, the file system is as before and the failure is printed, not
  raised.
\<close>

theorem reset_conversation_history_single:
  "conversation_history (reset_conversation_history s)
     = [\<lparr>role = SYSTEM, content = system_message s\<rparr>]
   \<and> system_message (reset_conversation_history s) = system_message s
   \<and> (write_to (files s) (history_file s)
         (json_dumps [\<lparr>role = SYSTEM, content = system_message s\<rparr>]) = Written \<longrightarrow>
        stored (files (reset_conversation_history s)) (history_file s)
          = Some (json_dumps [\<lparr>role = SYSTEM, content = system_message s\<rparr>])
        \<and> stdout (reset_conversation_history s) = stdout s)
   \<and> (\<forall>e. write_to (files s) (history_file s)
             (json_dumps [\<lparr>role = SYSTEM, content = system_message s\<rparr>]) = OpenFails e \<longrightarrow>
          files (reset_conversation_history s) = files s
          \<and> stdout (reset_conversation_history s)
              = stdout s @ [if is_IOError e then ErrSaveIO e else ErrSave e])"
  by (cases "write_to (files s) (history_file s)
                (json_dumps [\<lparr>role = SYSTEM, content = system_message s\<rparr>])")
     (simp_all add: reset_conversation_history_def save_conversation_history_def
        write_text_def print_def)

text \<open>
  On the manager just built the reset is written to the history file; with a history
  file in a folder that does not exist (\<open>history_file='sub/h.json'\<close>) \<open>open\<close> raises
  \<open>FileNotFoundError\<close>, which is printed, and nothing is written.
\<close>

theorem reset_conversation_history_single_witness:
  "write_to (files fresh_state) (history_file fresh_state)
     (json_dumps [\<lparr>role = SYSTEM, content = system_message fresh_state\<rparr>]) = Written
   \<and> conversation_history
       (reset_conversation_history
          (fresh_state\<lparr>conversation_history :=
             [\<lparr>role = USER, content = str_of ''hi''\<rparr>, \<lparr>role = SYSTEM, content = []\<rparr>]\<rparr>))
       = [\<lparr>role = SYSTEM, content = system_message fresh_state\<rparr>]
   \<and> stored
       (files
          (reset_conversation_history
             (fresh_state\<lparr>conversation_history :=
                [\<lparr>role = USER, content = str_of ''hi''\<rparr>, \<lparr>role = SYSTEM, content = []\<rparr>]\<rparr>)))
       (history_file fresh_state)
       = Some (json_dumps [\<lparr>role = SYSTEM, content = system_message fresh_state\<rparr>])
   \<and> write_to (files fresh_state) (str_of ''Past_Conversations/sub/h.json'')
       (json_dumps [\<lparr>role = SYSTEM, content = system_message fresh_state\<rparr>])
       = OpenFails FileNotFoundError
   \<and> conversation_history
       (reset_conversation_history
          (fresh_state\<lparr>history_file := str_of ''Past_Conversations/sub/h.json''\<rparr>))
       = [\<lparr>role = SYSTEM, content = system_message fresh_state\<rparr>]
   \<and> files
       (reset_conversation_history
          (fresh_state\<lparr>history_file := str_of ''Past_Conversations/sub/h.json''\<rparr>))
       = files fresh_state
   \<and> stdout
       (reset_conversation_history
          (fresh_state\<lparr>history_file := str_of ''Past_Conversations/sub/h.json''\<rparr>))
       = [ErrSaveIO FileNotFoundError]"
proof -
  have written:
    "write_to (files fresh_state) (history_file fresh_state)
       (json_dumps [\<lparr>role = SYSTEM, content = system_message fresh_state\<rparr>]) = Written"
    by (simp add: fresh_state_def bare_disk_def)
  have refused:
    "write_to (files fresh_state) (str_of ''Past_Conversations/sub/h.json'')
       (json_dumps [\<lparr>role = SYSTEM, content = system_message fresh_state\<rparr>])
       = OpenFails FileNotFoundError"
    by (simp add: fresh_state_def bare_disk_def example_file_def)
  have printed: "stdout fresh_state = []"
    by (simp add: fresh_state_def)
  from reset_conversation_history_single
         [of "fresh_state\<lparr>conversation_history :=
                [\<lparr>role = USER, content = str_of ''hi''\<rparr>, \<lparr>role = SYSTEM, content = []\<rparr>]\<rparr>"]
       reset_conversation_history_single
         [of "fresh_state\<lparr>history_file := str_of ''Past_Conversations/sub/h.json''\<rparr>"]
       written refused printed
  show ?thesis by (simp add: is_IOError_def)
qed

section \<open>Budget enforcement: what the loop leaves\<close>

lemma count_tokens_cong:
  "default_model s' = default_model s \<Longrightarrow> count_tokens ev s' t = count_tokens ev s t"
  by (simp add: count_tokens_def split: sum.splits)

lemma sum_loop_cong:
  "default_model s' = default_model s \<Longrightarrow> sum_loop ev s' ms acc = sum_loop ev s ms acc"
  by (induction ms arbitrary: acc)
     (auto simp: count_tokens_cong [of s' s] split: prod.splits sum.splits)

lemma total_tokens_used_cong:
  "default_model s' = default_model s \<Longrightarrow> conversation_history s' = conversation_history s
   \<Longrightarrow> total_tokens_used ev s' = total_tokens_used ev s"
  by (simp add: total_tokens_used_def sum_loop_cong [of s' s])

lemma sum_loop_ok_iff:
  "(\<exists>t. fst (sum_loop ev s ms acc) = Inr t)
     \<longleftrightarrow> (\<forall>m \<in> set ms. \<exists>n. fst (count_tokens ev s (content m)) = Inr n)"
proof (induction ms arbitrary: acc)
  case Nil
  then show ?case by simp
next
  case (Cons m ms)
  show ?case
  proof (cases "count_tokens ev s (content m)")
    case (Pair r out)
    show ?thesis
    proof (cases r)
      case (Inl e)
      with Pair show ?thesis by simp
    next
      case (Inr n)
      with Pair Cons [of "acc + int n"] show ?thesis
        by (simp add: split_beta)
    qed
  qed
qed

lemma total_tokens_used_Some_iff:
  "(\<exists>used. fst (total_tokens_used ev s) = Some used)
     \<longleftrightarrow> (\<forall>m \<in> set (conversation_history s). \<exists>n. fst (count_tokens ev s (content m)) = Inr n)"
proof -
  have "(\<exists>used. fst (total_tokens_used ev s) = Some used)
          \<longleftrightarrow> (\<exists>t. fst (sum_loop ev s (conversation_history s) 0) = Inr t)"
    by (auto simp: total_tokens_used_def split: prod.splits sum.splits)
  then show ?thesis by (simp add: sum_loop_ok_iff)
qed

lemma enforce_token_budget_stop:
  assumes "\<not> evicting ev s (conversation_history s)"
  shows "conversation_history (enforce_token_budget ev s) = conversation_history s"
  using assms
  by (subst enforce_token_budget.simps)
     (auto simp: evicting_def split: prod.splits option.splits)

lemma enforce_token_budget_step:
  assumes "evicting ev s (conversation_history s)"
  shows "enforce_token_budget ev s =
           enforce_token_budget ev
             (s\<lparr>stdout := stdout s @ snd (total_tokens_used ev s),
                conversation_history :=
                  take 1 (conversation_history s) @ drop 2 (conversation_history s)\<rparr>)"
  using assms
  by (subst enforce_token_budget.simps)
     (auto simp: evicting_def pop_def numeral_2_eq_2 split: prod.splits option.splits)


lemma evicting_cong:
  "default_model s' = default_model s \<Longrightarrow> token_budget s' = token_budget s
   \<Longrightarrow> evicting ev s' h = evicting ev s h"
  by (simp add: evicting_def
        total_tokens_used_cong [of "s'\<lparr>conversation_history := h\<rparr>" "s\<lparr>conversation_history := h\<rparr>"]
      split: option.splits)

lemma enforce_token_budget_frame:
  "enforce_token_budget ev s =
     s\<lparr>conversation_history := conversation_history (enforce_token_budget ev s),
       stdout := stdout (enforce_token_budget ev s)\<rparr>"
proof (induction ev s rule: enforce_token_budget.induct)
  case (1 ev s)
  show ?case
  proof (cases "total_tokens_used ev s")
    case (Pair r out)
    show ?thesis
    proof (cases r)
      case None
      with Pair show ?thesis by (subst (1 2 3) enforce_token_budget.simps) simp
    next
      case (Some used)
      show ?thesis
      proof (cases "used > token_budget s \<and> \<not> length (conversation_history s) \<le> 1")
        case False
        with Pair Some show ?thesis
          by (subst (1 2 3) enforce_token_budget.simps) auto
      next
        case True
        then have tb: "token_budget s < used" and nl: "\<not> length (conversation_history s) \<le> 1"
          by simp_all
        from True obtain x rest where p: "pop 1 (conversation_history s) = Inr (x, rest)"
          by (auto simp: pop_def)
        let ?s' = "s\<lparr>stdout := stdout s @ out, conversation_history := rest\<rparr>"
        have unf: "enforce_token_budget ev s = enforce_token_budget ev ?s'"
          using Pair Some True p by (subst enforce_token_budget.simps) simp
        have "enforce_token_budget ev ?s' =
                ?s'\<lparr>conversation_history := conversation_history (enforce_token_budget ev ?s'),
                    stdout := stdout (enforce_token_budget ev ?s')\<rparr>"
          using "1.IH" [OF Pair [symmetric] Some tb nl p refl] by simp
        then show ?thesis unfolding unf by simp
      qed
    qed
  qed
qed

lemma enforce_token_budget_shape:
  "\<exists>k. conversation_history (enforce_token_budget ev s)
          = take 1 (conversation_history s) @ drop (Suc k) (conversation_history s)
       \<and> (\<forall>j<k. evicting ev s
                   (take 1 (conversation_history s) @ drop (Suc j) (conversation_history s)))
       \<and> \<not> evicting ev s
             (take 1 (conversation_history s) @ drop (Suc k) (conversation_history s))"
proof (induction "length (conversation_history s)" arbitrary: s rule: less_induct)
  case less
  let ?h = "conversation_history s"
  have same: "take 1 ?h @ drop (Suc 0) ?h = ?h"
    by (metis One_nat_def append_take_drop_id)
  show ?case
  proof (cases "evicting ev s ?h")
    case False
    with enforce_token_budget_stop [OF False] same show ?thesis
      by (intro exI [of _ 0]) simp
  next
    case True
    then have len: "1 < length ?h"
      by (auto simp: evicting_def split: option.splits)
    let ?rest = "take 1 ?h @ drop 2 ?h"
    let ?s' = "s\<lparr>stdout := stdout s @ snd (total_tokens_used ev s),
                 conversation_history := ?rest\<rparr>"
    have step: "enforce_token_budget ev s = enforce_token_budget ev ?s'"
      by (rule enforce_token_budget_step [OF True])
    have shorter: "length (conversation_history ?s') < length ?h"
      using len by simp
    from less [OF shorter] obtain k where
      k1: "conversation_history (enforce_token_budget ev ?s')
             = take 1 ?rest @ drop (Suc k) ?rest"
      and k2: "\<forall>j<k. evicting ev ?s' (take 1 ?rest @ drop (Suc j) ?rest)"
      and k3: "\<not> evicting ev ?s' (take 1 ?rest @ drop (Suc k) ?rest)"
      by auto
    have ev_eq: "\<And>h. evicting ev ?s' h = evicting ev s h"
      by (rule evicting_cong) simp_all
    have rest_eq: "\<And>j. take 1 ?rest @ drop (Suc j) ?rest = take 1 ?h @ drop (Suc (Suc j)) ?h"
      using len by (cases ?h) (auto simp: numeral_2_eq_2)
    have "\<forall>j<Suc k. evicting ev s (take 1 ?h @ drop (Suc j) ?h)"
    proof (intro allI impI)
      fix j assume "j < Suc k"
      show "evicting ev s (take 1 ?h @ drop (Suc j) ?h)"
      proof (cases j)
        case 0
        with True same show ?thesis by simp
      next
        case (Suc j')
        with \<open>j < Suc k\<close> k2 have "evicting ev ?s' (take 1 ?rest @ drop (Suc j') ?rest)" by simp
        then show ?thesis unfolding ev_eq rest_eq Suc .
      qed
    qed
    moreover have "\<not> evicting ev s (take 1 ?h @ drop (Suc (Suc k)) ?h)"
      using k3 unfolding ev_eq rest_eq .
    moreover have "conversation_history (enforce_token_budget ev s)
                     = take 1 ?h @ drop (Suc (Suc k)) ?h"
      using k1 unfolding step rest_eq .
    ultimately show ?thesis by blast
  qed
qed

section \<open>The operations keep the transcript invariants\<close>

lemma transcript_inv_tl:
  "transcript_inv h \<longleftrightarrow> h \<noteq> [] \<and> (\<forall>m \<in> set (tl h). role m \<noteq> SYSTEM)"
proof (cases h)
  case Nil
  then show ?thesis by (simp add: transcript_inv_def)
next
  case (Cons x xs)
  have "(\<forall>i<Suc (length xs). role ((x # xs) ! i) = SYSTEM \<longrightarrow> i = 0)
          \<longleftrightarrow> (\<forall>m \<in> set xs. role m \<noteq> SYSTEM)"
  proof
    assume a: "\<forall>i<Suc (length xs). role ((x # xs) ! i) = SYSTEM \<longrightarrow> i = 0"
    show "\<forall>m \<in> set xs. role m \<noteq> SYSTEM"
    proof
      fix m assume "m \<in> set xs"
      then obtain j where "j < length xs" "xs ! j = m" by (auto simp: in_set_conv_nth)
      with a [rule_format, of "Suc j"] show "role m \<noteq> SYSTEM" by auto
    qed
  next
    assume b: "\<forall>m \<in> set xs. role m \<noteq> SYSTEM"
    show "\<forall>i<Suc (length xs). role ((x # xs) ! i) = SYSTEM \<longrightarrow> i = 0"
    proof (intro allI impI)
      fix i assume "i < Suc (length xs)" "role ((x # xs) ! i) = SYSTEM"
      with b show "i = 0" by (cases i) auto
    qed
  qed
  with Cons show ?thesis by (simp add: transcript_inv_def)
qed

lemma transcript_inv_evicted:
  assumes "transcript_inv h"
  shows "transcript_inv (take 1 h @ drop (Suc k) h)"
proof (cases h)
  case Nil
  with assms show ?thesis by (simp add: transcript_inv_def)
next
  case (Cons x xs)
  with assms have "\<forall>m \<in> set xs. role m \<noteq> SYSTEM" by (simp add: transcript_inv_tl)
  then have "\<forall>m \<in> set (drop k xs). role m \<noteq> SYSTEM" by (meson in_set_dropD)
  with Cons show ?thesis by (simp add: transcript_inv_tl)
qed

lemma transcript_inv_append:
  assumes "transcript_inv h" and "role m \<noteq> SYSTEM"
  shows "transcript_inv (h @ [m])"
  using assms by (cases h) (auto simp: transcript_inv_tl)

lemma transcript_inv_enforce:
  assumes "transcript_inv (conversation_history s)"
  shows "transcript_inv (conversation_history (enforce_token_budget ev s))"
proof -
  from enforce_token_budget_shape [of ev s] obtain k where
    "conversation_history (enforce_token_budget ev s)
       = take 1 (conversation_history s) @ drop (Suc k) (conversation_history s)"
    by blast
  with transcript_inv_evicted [OF assms] show ?thesis by simp
qed

lemma transcript_inv_update:
  assumes "transcript_inv (conversation_history s)"
  shows "transcript_inv (conversation_history (update_system_message_in_history s))"
proof (cases "conversation_history s")
  case Nil
  with assms show ?thesis by (simp add: transcript_inv_def)
next
  case (Cons x xs)
  with assms have tl: "\<forall>m \<in> set xs. role m \<noteq> SYSTEM" by (simp add: transcript_inv_tl)
  show ?thesis
  proof (cases "role x = SYSTEM")
    case True
    with Cons tl show ?thesis
      by (simp add: update_system_message_in_history_def transcript_inv_tl)
  next
    case False
    with Cons tl show ?thesis
      by (simp add: update_system_message_in_history_def transcript_inv_tl)
  qed
qed

lemma transcript_inv_set_persona:
  assumes "transcript_inv (conversation_history s)"
  shows "transcript_inv (conversation_history (snd (set_persona persona s)))"
proof (cases "system_messages s persona")
  case None
  with assms show ?thesis by (simp add: set_persona_def)
next
  case (Some wording)
  from assms have "transcript_inv (conversation_history (s\<lparr>system_message := wording\<rparr>))"
    by simp
  from transcript_inv_update [OF this] Some show ?thesis by (simp add: set_persona_def)
qed

lemma transcript_inv_set_custom:
  assumes "transcript_inv (conversation_history s)"
  shows "transcript_inv (conversation_history (snd (set_custom_system_message custom_message s)))"
proof (cases "custom_message = []")
  case True
  with assms show ?thesis by (simp add: set_custom_system_message_def)
next
  case False
  let ?s0 = "s\<lparr>system_messages := (system_messages s)(str_of ''custom'' \<mapsto> custom_message)\<rparr>"
  from assms have "transcript_inv (conversation_history ?s0)" by simp
  from transcript_inv_set_persona [OF this] False show ?thesis
    by (simp add: set_custom_system_message_def)
qed

lemma conversation_history_save [simp]:
  "conversation_history (save_conversation_history s) = conversation_history s"
  by (simp add: save_conversation_history_def write_text_def print_def
      split: write_outcome.splits)

lemma transcript_inv_reset:
  "transcript_inv (conversation_history (reset_conversation_history s))"
  by (simp add: reset_conversation_history_def transcript_inv_def)

lemma transcript_inv_chat:
  assumes "transcript_inv (conversation_history s)"
  shows "transcript_inv
           (conversation_history (snd (chat_completion ev prompt temperature max_tokens model s)))"
proof -
  let ?s1 = "s\<lparr>conversation_history :=
                 conversation_history s @ [\<lparr>role = USER, content = prompt\<rparr>]\<rparr>"
  let ?s2 = "append_prompt ev prompt s"
  have "transcript_inv (conversation_history ?s1)"
    using transcript_inv_append [OF assms, of "\<lparr>role = USER, content = prompt\<rparr>"] by simp
  from transcript_inv_enforce [OF this] have inv2: "transcript_inv (conversation_history ?s2)"
    by (simp add: append_prompt_def)
  have inv3: "\<And>a. transcript_inv (conversation_history ?s2 @ [\<lparr>role = ASSISTANT, content = a\<rparr>])"
    using transcript_inv_append [OF inv2] by simp
  show ?thesis
    using inv2 inv3
    by (simp add: chat_completion_def Let_def print_def split: sum.splits list.splits)
qed

section \<open>Facts about the example states\<close>

lemma fresh_state_fields [simp]:
  "default_model fresh_state = str_of ''gpt-3.5-turbo''"
  "token_budget fresh_state = 4096"
  "conversation_history fresh_state =
     [\<lparr>role = SYSTEM, content = normal_assistant_text\<rparr>]"
  by (simp_all add: fresh_state_def)

lemma count_tokens_one_model [simp]:
  "default_model s = str_of ''gpt-3.5-turbo''
   \<Longrightarrow> count_tokens env_down s t = (Inr (length t), [])"
  "default_model s = str_of ''gpt-3.5-turbo''
   \<Longrightarrow> count_tokens env_up s t = (Inr (length t), [])"
  by (simp_all add: count_tokens_def env_down_def env_up_def one_model_def)

lemma busy_state_fields [simp]:
  "default_model busy_state = str_of ''gpt-3.5-turbo''"
  "token_budget busy_state = 18"
  "conversation_history busy_state =
     [\<lparr>role = SYSTEM, content = str_of ''Be brief.''\<rparr>,
      \<lparr>role = USER, content = str_of ''hello''\<rparr>,
      \<lparr>role = ASSISTANT, content = str_of ''hi there''\<rparr>]"
  by (simp_all add: busy_state_def fresh_state_def)

lemma busy_state_total: "fst (total_tokens_used env_down busy_state) = Some 22"
  by (simp add: total_tokens_used_def str_of_def)

lemma busy_state_evicting: "evicting env_down busy_state (conversation_history busy_state)"
  by (simp add: evicting_def total_tokens_used_def str_of_def)

lemma create_env_down [simp]: "create env_down model' h t n = Inl APIError"
  by (simp add: env_down_def)

lemma fresh_state_inv: "transcript_inv (conversation_history fresh_state)"
  by (simp add: transcript_inv_def fresh_state_def)

lemma append_prompt_fresh_state:
  "conversation_history (append_prompt env_down (str_of ''hi'') fresh_state)
     = conversation_history fresh_state @ [\<lparr>role = USER, content = str_of ''hi''\<rparr>]"
proof -
  let ?s1 = "fresh_state\<lparr>conversation_history :=
               conversation_history fresh_state @ [\<lparr>role = USER, content = str_of ''hi''\<rparr>]\<rparr>"
  have "\<not> evicting env_down ?s1 (conversation_history ?s1)"
    by (simp add: evicting_def total_tokens_used_def str_of_def normal_assistant_text_def)
  from enforce_token_budget_stop [OF this] show ?thesis
    by (simp add: append_prompt_def)
qed

lemma append_prompt_tight_state:
  "conversation_history (append_prompt env_down (str_of ''hi'') tight_state)
     = conversation_history fresh_state"
proof -
  let ?s1 = "tight_state\<lparr>conversation_history :=
               conversation_history tight_state @ [\<lparr>role = USER, content = str_of ''hi''\<rparr>]\<rparr>"
  let ?s2 = "?s1\<lparr>stdout := stdout ?s1 @ snd (total_tokens_used env_down ?s1),
                 conversation_history :=
                   take 1 (conversation_history ?s1) @ drop 2 (conversation_history ?s1)\<rparr>"
  have e1: "evicting env_down ?s1 (conversation_history ?s1)"
    by (simp add: evicting_def total_tokens_used_def str_of_def tight_state_def
          normal_assistant_text_def)
  have e2: "\<not> evicting env_down ?s2 (conversation_history ?s2)"
    by (simp add: evicting_def tight_state_def split: option.splits)
  have "conversation_history (enforce_token_budget env_down ?s1)
          = conversation_history ?s2"
    using enforce_token_budget_step [OF e1] enforce_token_budget_stop [OF e2] by simp
  then show ?thesis
    by (simp add: append_prompt_def tight_state_def)
qed

section \<open>The token budget: convergence and eviction order\<close>

lemma enforce_token_budget_fields:
  "token_budget (enforce_token_budget ev s) = token_budget s"
  "default_model (enforce_token_budget ev s) = default_model s"
  "system_message (enforce_token_budget ev s) = system_message s"
  "system_messages (enforce_token_budget ev s) = system_messages s"
  "files (enforce_token_budget ev s) = files s"
  "history_file (enforce_token_budget ev s) = history_file s"
  by (subst enforce_token_budget_frame, simp)+

lemma enforce_token_budget_settled:
  assumes "\<not> evicting ev s (conversation_history s)"
  shows "conversation_history ((enforce_token_budget ev ^^ n) s) = conversation_history s
         \<and> \<not> evicting ev ((enforce_token_budget ev ^^ n) s)
               (conversation_history ((enforce_token_budget ev ^^ n) s))"
proof (induction n)
  case 0
  with assms show ?case by simp
next
  case (Suc n)
  let ?t = "(enforce_token_budget ev ^^ n) s"
  from Suc have still: "\<not> evicting ev ?t (conversation_history ?t)"
    and same: "conversation_history ?t = conversation_history s" by blast+
  have kept: "conversation_history (enforce_token_budget ev ?t) = conversation_history ?t"
    by (rule enforce_token_budget_stop [OF still])
  have "evicting ev (enforce_token_budget ev ?t) (conversation_history ?t)
          = evicting ev ?t (conversation_history ?t)"
    by (rule evicting_cong) (simp_all add: enforce_token_budget_fields)
  with still have "\<not> evicting ev (enforce_token_budget ev ?t) (conversation_history ?t)"
    by blast
  with kept same show ?case by simp
qed

lemma total_tokens_used_Nil:
  "conversation_history s = [] \<Longrightarrow> fst (total_tokens_used ev s) = Some 0"
  by (simp add: total_tokens_used_def)

text \<open>
  C3. When the total of the transcript is above a budget \<open>B \<ge> 0\<close> (zero included),
  \<open>enforce_token_budget\<close> returns (the function is total: its termination is proved
  with the length of the transcript as measure), the total of the transcript it
  leaves is at most \<open>B\<close> or exactly one message remains, and any number of further
  calls leave that transcript as it is.
\<close>

theorem enforce_token_budget_converges:
  assumes "fst (total_tokens_used ev s) = Some used"
    and "token_budget s < used"
    and "0 \<le> token_budget s"
  shows "\<exists>used'. fst (total_tokens_used ev (enforce_token_budget ev s)) = Some used'
           \<and> (used' \<le> token_budget s
                \<or> length (conversation_history (enforce_token_budget ev s)) = 1)
           \<and> (\<forall>n. conversation_history
                      ((enforce_token_budget ev ^^ n) (enforce_token_budget ev s))
                    = conversation_history (enforce_token_budget ev s))"
proof -
  let ?h = "conversation_history s"
  let ?s' = "enforce_token_budget ev s"
  from enforce_token_budget_shape [of ev s] obtain k where
    shape: "conversation_history ?s' = take 1 ?h @ drop (Suc k) ?h"
    and stop: "\<not> evicting ev s (take 1 ?h @ drop (Suc k) ?h)"
    by blast
  have nonempty: "?h \<noteq> []"
  proof
    assume "?h = []"
    from total_tokens_used_Nil [OF this, of ev] assms show False by simp
  qed
  have subset: "set (conversation_history ?s') \<subseteq> set ?h"
    unfolding shape by (auto dest: in_set_takeD in_set_dropD)
  have counts: "\<forall>m \<in> set ?h. \<exists>n. fst (count_tokens ev s (content m)) = Inr n"
    using assms(1) total_tokens_used_Some_iff [of ev s] by blast
  have "\<forall>m \<in> set (conversation_history ?s'). \<exists>n. fst (count_tokens ev ?s' (content m)) = Inr n"
    using counts subset
    by (auto simp: count_tokens_cong [of ?s' s] enforce_token_budget_fields)
  then obtain used' where used': "fst (total_tokens_used ev ?s') = Some used'"
    using total_tokens_used_Some_iff [of ev ?s'] by blast
  have same_total: "total_tokens_used ev (s\<lparr>conversation_history := conversation_history ?s'\<rparr>)
                      = total_tokens_used ev ?s'"
    by (rule total_tokens_used_cong) (simp_all add: enforce_token_budget_fields)
  from stop used' same_total
  have bound: "used' \<le> token_budget s \<or> length (conversation_history ?s') \<le> 1"
    by (auto simp: evicting_def shape split: option.splits)
  have "length (conversation_history ?s') \<ge> 1"
    using nonempty unfolding shape by (cases ?h) simp_all
  with bound have goal1: "used' \<le> token_budget s \<or> length (conversation_history ?s') = 1"
    by linarith
  have "evicting ev ?s' (conversation_history ?s') = evicting ev s (conversation_history ?s')"
    by (rule evicting_cong) (simp_all add: enforce_token_budget_fields)
  with stop have "\<not> evicting ev ?s' (conversation_history ?s')"
    by (simp add: shape)
  from enforce_token_budget_settled [OF this] used' goal1 show ?thesis by blast
qed

theorem enforce_token_budget_converges_witness:
  "fst (total_tokens_used env_down busy_state) = Some 22
   \<and> token_budget busy_state < 22 \<and> 0 \<le> token_budget busy_state
   \<and> (\<exists>used'. fst (total_tokens_used env_down (enforce_token_budget env_down busy_state))
                  = Some used'
         \<and> (used' \<le> token_budget busy_state
              \<or> length (conversation_history (enforce_token_budget env_down busy_state)) = 1)
         \<and> (\<forall>n. conversation_history
                    ((enforce_token_budget env_down ^^ n)
                       (enforce_token_budget env_down busy_state))
                  = conversation_history (enforce_token_budget env_down busy_state)))"
proof -
  have over: "token_budget busy_state < 22" and nonneg: "0 \<le> token_budget busy_state"
    by simp_all
  from enforce_token_budget_converges [OF busy_state_total over nonneg]
       busy_state_total over nonneg
  show ?thesis by blast
qed

text \<open>
  C5. What \<open>enforce_token_budget\<close> leaves is the transcript without the messages at
  indices \<open>1..k\<close>: the entry at index 0 followed by everything from index \<open>k + 1\<close> on,
  in order. Each of the \<open>k\<close> removals took the entry at index 1, the oldest one after
  index 0, and was made because the transcript reached so far was still over budget
  with more than one entry; the loop stopped at the first transcript that was not. A
  transcript over budget with more than one entry loses at least one message. The
  entry at index 0 is never removed.
\<close>

theorem enforce_token_budget_fifo:
  "\<exists>k. conversation_history (enforce_token_budget ev s)
          = take 1 (conversation_history s) @ drop (Suc k) (conversation_history s)
       \<and> (\<forall>j<k. evicting ev s
                   (take 1 (conversation_history s) @ drop (Suc j) (conversation_history s)))
       \<and> \<not> evicting ev s
             (take 1 (conversation_history s) @ drop (Suc k) (conversation_history s))
       \<and> (evicting ev s (conversation_history s) \<longrightarrow> 0 < k)
       \<and> (conversation_history s \<noteq> [] \<longrightarrow>
            conversation_history (enforce_token_budget ev s) \<noteq> []
            \<and> conversation_history (enforce_token_budget ev s) ! 0 = conversation_history s ! 0)"
proof -
  let ?h = "conversation_history s"
  from enforce_token_budget_shape [of ev s] obtain k where
    shape: "conversation_history (enforce_token_budget ev s) = take 1 ?h @ drop (Suc k) ?h"
    and before: "\<forall>j<k. evicting ev s (take 1 ?h @ drop (Suc j) ?h)"
    and stop: "\<not> evicting ev s (take 1 ?h @ drop (Suc k) ?h)"
    by blast
  have same: "take 1 ?h @ drop (Suc 0) ?h = ?h"
    by (metis One_nat_def append_take_drop_id)
  have pos: "evicting ev s ?h \<longrightarrow> 0 < k"
  proof
    assume e: "evicting ev s ?h"
    show "0 < k"
    proof (rule ccontr)
      assume "\<not> 0 < k"
      then have "k = 0" by simp
      with stop same e show False by simp
    qed
  qed
  have head: "?h \<noteq> [] \<longrightarrow> take 1 ?h @ drop (Suc k) ?h \<noteq> []
                \<and> (take 1 ?h @ drop (Suc k) ?h) ! 0 = ?h ! 0"
    by (cases ?h) simp_all
  from head shape have head': "?h \<noteq> [] \<longrightarrow>
      conversation_history (enforce_token_budget ev s) \<noteq> []
      \<and> conversation_history (enforce_token_budget ev s) ! 0 = ?h ! 0"
    by (simp only:)
  from shape before stop pos head' show ?thesis
    by (intro exI [of _ k] conjI)
qed

theorem enforce_token_budget_fifo_witness:
  "evicting env_down busy_state (conversation_history busy_state)
   \<and> conversation_history busy_state \<noteq> []
   \<and> (\<exists>k. 0 < k
         \<and> conversation_history (enforce_token_budget env_down busy_state)
             = take 1 (conversation_history busy_state)
               @ drop (Suc k) (conversation_history busy_state)
         \<and> conversation_history (enforce_token_budget env_down busy_state) ! 0
             = conversation_history busy_state ! 0)"
proof -
  have nonempty: "conversation_history busy_state \<noteq> []" by simp
  from enforce_token_budget_fifo [of env_down busy_state] busy_state_evicting nonempty
  show ?thesis by blast
qed

section \<open>The invariants under every public operation\<close>

text \<open>
  C6. From a state whose transcript is non-empty and has no system message except
  possibly at index 0, each of \<open>set_persona\<close>, \<open>set_custom_system_message\<close>,
  \<open>update_system_message_in_history\<close>, \<open>enforce_token_budget\<close>, \<open>chat_completion\<close>
  and \<open>reset_conversation_history\<close> leaves a transcript with both properties, whatever
  the arguments, the tokenizer and the completion service, and whether the call
  returns or raises.
\<close>

theorem public_operations_keep_invariants:
  assumes "transcript_inv (conversation_history s)"
  shows "transcript_inv (conversation_history (snd (set_persona persona s)))
       \<and> transcript_inv (conversation_history (snd (set_custom_system_message custom_message s)))
       \<and> transcript_inv (conversation_history (update_system_message_in_history s))
       \<and> transcript_inv (conversation_history (enforce_token_budget ev s))
       \<and> transcript_inv
           (conversation_history (snd (chat_completion ev prompt temperature max_tokens model s)))
       \<and> transcript_inv (conversation_history (reset_conversation_history s))"
proof (intro conjI)
  show "transcript_inv (conversation_history (snd (set_persona persona s)))"
    by (rule transcript_inv_set_persona [OF assms])
  show "transcript_inv (conversation_history (snd (set_custom_system_message custom_message s)))"
    by (rule transcript_inv_set_custom [OF assms])
  show "transcript_inv (conversation_history (update_system_message_in_history s))"
    by (rule transcript_inv_update [OF assms])
  show "transcript_inv (conversation_history (enforce_token_budget ev s))"
    by (rule transcript_inv_enforce [OF assms])
  show "transcript_inv
          (conversation_history (snd (chat_completion ev prompt temperature max_tokens model s)))"
    by (rule transcript_inv_chat [OF assms])
  show "transcript_inv (conversation_history (reset_conversation_history s))"
    by (rule transcript_inv_reset)
qed

theorem public_operations_keep_invariants_witness:
  "transcript_inv (conversation_history fresh_state)
   \<and> transcript_inv
       (conversation_history (snd (set_persona (str_of ''angry_assistant'') fresh_state)))
   \<and> transcript_inv
       (conversation_history (snd (set_custom_system_message (str_of ''Be brief.'') fresh_state)))
   \<and> transcript_inv (conversation_history (update_system_message_in_history fresh_state))
   \<and> transcript_inv (conversation_history (enforce_token_budget env_up fresh_state))
   \<and> transcript_inv
       (conversation_history
          (snd (chat_completion env_up (str_of ''hi'') None None None fresh_state)))
   \<and> transcript_inv (conversation_history (reset_conversation_history fresh_state))"
  using public_operations_keep_invariants
          [OF fresh_state_inv, of "str_of ''angry_assistant''" "str_of ''Be brief.''" env_up
             "str_of ''hi''" None None None]
        fresh_state_inv
  by blast

section \<open>A chat turn whose completion call fails\<close>

text \<open>
  Leaving messages out of a transcript that can be counted gives a transcript that can
  be counted, with no more tokens.
\<close>

lemma fst_sum_loop_Cons:
  "fst (sum_loop ev s (m # ms) acc)
     = (case fst (count_tokens ev s (content m)) of
          Inl e \<Rightarrow> Inl e
        | Inr n \<Rightarrow> fst (sum_loop ev s ms (acc + int n)))"
  by (simp split: prod.splits sum.splits)

lemma sum_loop_append:
  "fst (sum_loop ev s (xs @ ys) acc)
     = (case fst (sum_loop ev s xs acc) of
          Inl e \<Rightarrow> Inl e
        | Inr t \<Rightarrow> fst (sum_loop ev s ys t))"
proof (induction xs arbitrary: acc)
  case Nil
  show ?case by simp
next
  case (Cons m xs)
  have "fst (sum_loop ev s ((m # xs) @ ys) acc)
          = (case fst (count_tokens ev s (content m)) of
               Inl e \<Rightarrow> Inl e
             | Inr n \<Rightarrow> fst (sum_loop ev s (xs @ ys) (acc + int n)))"
    using fst_sum_loop_Cons [of ev s m "xs @ ys" acc] by simp
  then show ?case
    unfolding fst_sum_loop_Cons [of ev s m xs acc] Cons.IH
    by (simp split: sum.splits)
qed

lemma sum_loop_lower: "fst (sum_loop ev s ms acc) = Inr t \<Longrightarrow> acc \<le> t"
proof (induction ms arbitrary: acc)
  case Nil
  then show ?case by simp
next
  case (Cons m ms)
  from Cons.prems obtain n where "fst (sum_loop ev s ms (acc + int n)) = Inr t"
    unfolding fst_sum_loop_Cons by (auto split: sum.splits)
  from Cons.IH [OF this] show ?case by simp
qed

lemma sum_loop_shift:
  "fst (sum_loop ev s ms acc) = Inr t \<Longrightarrow> fst (sum_loop ev s ms (acc + d)) = Inr (t + d)"
proof (induction ms arbitrary: acc)
  case Nil
  then show ?case by simp
next
  case (Cons m ms)
  from Cons.prems obtain n where n: "fst (count_tokens ev s (content m)) = Inr n"
    and rest: "fst (sum_loop ev s ms (acc + int n)) = Inr t"
    unfolding fst_sum_loop_Cons by (auto split: sum.splits)
  from Cons.IH [OF rest] have "fst (sum_loop ev s ms (acc + d + int n)) = Inr (t + d)"
    by (simp add: add.commute add.left_commute)
  then show ?case
    unfolding fst_sum_loop_Cons n by simp
qed

lemma sum_loop_skip:
  assumes "fst (sum_loop ev s (pre @ ys) acc) = Inr t"
  shows "\<exists>t'. fst (sum_loop ev s ys acc) = Inr t' \<and> t' \<le> t"
proof -
  from assms obtain t1 where pre: "fst (sum_loop ev s pre acc) = Inr t1"
    and ys: "fst (sum_loop ev s ys t1) = Inr t"
    by (auto simp: sum_loop_append split: sum.splits)
  from sum_loop_lower [OF pre] have "acc \<le> t1" .
  moreover from sum_loop_shift [OF ys, of "acc - t1"]
  have "fst (sum_loop ev s ys acc) = Inr (t + (acc - t1))" by simp
  ultimately show ?thesis by simp
qed

lemma total_tokens_used_sum_loop:
  "fst (total_tokens_used ev (s\<lparr>conversation_history := h\<rparr>))
     = (case fst (sum_loop ev s h 0) of Inl e \<Rightarrow> None | Inr t \<Rightarrow> Some t)"
  by (simp add: total_tokens_used_def sum_loop_cong [of "s\<lparr>conversation_history := h\<rparr>" s]
      split: prod.splits sum.splits)

lemma total_tokens_used_skip:
  assumes "fst (total_tokens_used ev (s\<lparr>conversation_history := x # pre @ ys\<rparr>)) = Some t"
  shows "\<exists>t'. fst (total_tokens_used ev (s\<lparr>conversation_history := x # ys\<rparr>)) = Some t'
              \<and> t' \<le> t"
proof -
  from assms have whole: "fst (sum_loop ev s (x # pre @ ys) 0) = Inr t"
    by (simp add: total_tokens_used_sum_loop del: sum_loop.simps split: sum.splits)
  then obtain n where x: "fst (count_tokens ev s (content x)) = Inr n"
    and rest: "fst (sum_loop ev s (pre @ ys) (int n)) = Inr t"
    unfolding fst_sum_loop_Cons by (auto split: sum.splits)
  from sum_loop_skip [OF rest] obtain t' where
    t': "fst (sum_loop ev s ys (int n)) = Inr t'" and le: "t' \<le> t"
    by blast
  have "fst (sum_loop ev s (x # ys) 0) = Inr t'"
    unfolding fst_sum_loop_Cons x using t' by simp
  with le show ?thesis
    by (simp add: total_tokens_used_sum_loop del: sum_loop.simps)
qed

text \<open>
  When the whole transcript can be counted and its first and last entries alone are
  over budget, the loop evicts everything after the first entry.
\<close>

lemma enforce_token_budget_evicts_all:
  assumes hist: "conversation_history s = x # mid @ [u]"
    and counted: "fst (total_tokens_used ev s) \<noteq> None"
    and over: "evicting ev s [x, u]"
  shows "conversation_history (enforce_token_budget ev s) = [x]"
proof -
  let ?h = "conversation_history s"
  from enforce_token_budget_shape [of ev s] obtain k where
    shape: "conversation_history (enforce_token_budget ev s) = take 1 ?h @ drop (Suc k) ?h"
    and stop: "\<not> evicting ev s (take 1 ?h @ drop (Suc k) ?h)"
    by blast
  from counted obtain t where "fst (total_tokens_used ev s) = Some t" by blast
  then have t: "fst (total_tokens_used ev (s\<lparr>conversation_history := x # mid @ [u]\<rparr>)) = Some t"
    using total_tokens_used_cong [of "s\<lparr>conversation_history := x # mid @ [u]\<rparr>" s ev] hist
    by simp
  from over obtain t2 where
    t2: "fst (total_tokens_used ev (s\<lparr>conversation_history := [x, u]\<rparr>)) = Some t2"
    and big: "token_budget s < t2"
    by (auto simp: evicting_def split: option.splits)
  have "length mid < k"
  proof (rule ccontr)
    assume "\<not> length mid < k"
    then have k: "k \<le> length mid" by simp
    then have left: "take 1 ?h @ drop (Suc k) ?h = x # drop k mid @ [u]"
      by (simp add: hist)
    have "x # mid @ [u] = x # take k mid @ (drop k mid @ [u])" by simp
    with t have "fst (total_tokens_used ev
                        (s\<lparr>conversation_history := x # take k mid @ (drop k mid @ [u])\<rparr>))
                   = Some t"
      by (simp only:)
    from total_tokens_used_skip [OF this] obtain tk where
      tk: "fst (total_tokens_used ev (s\<lparr>conversation_history := x # drop k mid @ [u]\<rparr>))
             = Some tk"
      by blast
    from total_tokens_used_skip [OF tk] t2 have "t2 \<le> tk" by simp
    with big tk have "evicting ev s (x # drop k mid @ [u])"
      by (simp add: evicting_def)
    with stop left show False by simp
  qed
  then have "drop (Suc k) ?h = []" by (simp add: hist)
  with shape show ?thesis by (simp add: hist)
qed

text \<open>
  C4, as the code has it. When \<open>create\<close> raises, \<open>chat_completion\<close> returns \<open>None\<close>
  and raises nothing; no assistant message is appended: the transcript is the one
  that budget enforcement left after the user's message was appended, that is the
  old entry at index 0 followed by a suffix of the rest. The user's message is its
  last entry whenever more than one message remains (or the old transcript was
  empty); otherwise only the old entry at index 0 remains, budget enforcement, which
  runs after the append, having evicted the user's message itself. It does so whenever
  every message of the transcript can be counted and the old entry at index 0 and the
  user's message alone are over the budget.
\<close>

theorem chat_completion_service_failure:
  assumes "create ev (resolve model (default_model s))
             (conversation_history (append_prompt ev prompt s))
             (resolve temperature (default_temperature s))
             (resolve max_tokens (default_max_tokens s)) = Inl e"
  shows "fst (chat_completion ev prompt temperature max_tokens model s) = Inr None
       \<and> conversation_history (snd (chat_completion ev prompt temperature max_tokens model s))
           = conversation_history (append_prompt ev prompt s)
       \<and> (\<exists>k. conversation_history (append_prompt ev prompt s)
                 = take 1 (conversation_history s @ [\<lparr>role = USER, content = prompt\<rparr>])
                   @ drop (Suc k) (conversation_history s @ [\<lparr>role = USER, content = prompt\<rparr>]))
       \<and> (1 < length (conversation_history
                        (snd (chat_completion ev prompt temperature max_tokens model s)))
            \<or> conversation_history s = [] \<longrightarrow>
            last (conversation_history
                    (snd (chat_completion ev prompt temperature max_tokens model s)))
              = \<lparr>role = USER, content = prompt\<rparr>)
       \<and> (length (conversation_history
                    (snd (chat_completion ev prompt temperature max_tokens model s))) \<le> 1
            \<and> conversation_history s \<noteq> [] \<longrightarrow>
            conversation_history (snd (chat_completion ev prompt temperature max_tokens model s))
              = [conversation_history s ! 0])
       \<and> (conversation_history s \<noteq> []
            \<and> fst (total_tokens_used ev
                     (s\<lparr>conversation_history :=
                          conversation_history s @ [\<lparr>role = USER, content = prompt\<rparr>]\<rparr>))
                \<noteq> None
            \<and> evicting ev s [conversation_history s ! 0, \<lparr>role = USER, content = prompt\<rparr>]
            \<longrightarrow>
            conversation_history (snd (chat_completion ev prompt temperature max_tokens model s))
              = [conversation_history s ! 0])"
proof -
  let ?u = "\<lparr>role = USER, content = prompt\<rparr>"
  let ?h1 = "conversation_history s @ [?u]"
  let ?s1 = "s\<lparr>conversation_history := ?h1\<rparr>"
  let ?s2 = "append_prompt ev prompt s"
  have call: "chat_completion ev prompt temperature max_tokens model s
                = (Inr None, print (ErrGenerate e) ?s2)"
    using assms by (simp add: chat_completion_def Let_def)
  from enforce_token_budget_shape [of ev ?s1] obtain k where
    shape: "conversation_history ?s2 = take 1 ?h1 @ drop (Suc k) ?h1"
    by (auto simp: append_prompt_def)
  have last_kept: "1 < length (conversation_history ?s2) \<or> conversation_history s = []
                     \<longrightarrow> last (conversation_history ?s2) = ?u"
  proof
    assume a: "1 < length (conversation_history ?s2) \<or> conversation_history s = []"
    show "last (conversation_history ?s2) = ?u"
    proof (cases "conversation_history s = []")
      case True
      then show ?thesis unfolding shape by simp
    next
      case False
      define h1 where "h1 = conversation_history s @ [?u]"
      have sh: "conversation_history ?s2 = take 1 h1 @ drop (Suc k) h1"
        using shape by (simp add: h1_def)
      have l1: "last h1 = ?u" by (simp add: h1_def)
      from a False have "1 < length (take 1 h1 @ drop (Suc k) h1)" by (simp add: sh)
      then have "Suc k < length h1" by (cases h1) auto
      then have "drop (Suc k) h1 \<noteq> []" and "last (drop (Suc k) h1) = last h1"
        by simp_all
      then have "last (take 1 h1 @ drop (Suc k) h1) = last h1"
        using last_appendR [of "drop (Suc k) h1" "take 1 h1"] by simp
      with sh l1 show ?thesis by simp
    qed
  qed
  have only_head: "length (conversation_history ?s2) \<le> 1 \<and> conversation_history s \<noteq> []
                     \<longrightarrow> conversation_history ?s2 = [conversation_history s ! 0]"
  proof
    assume a: "length (conversation_history ?s2) \<le> 1 \<and> conversation_history s \<noteq> []"
    then obtain x mid where h: "conversation_history s = x # mid"
      by (cases "conversation_history s") auto
    from a have "length (take 1 ?h1 @ drop (Suc k) ?h1) \<le> 1" by (simp add: shape)
    then have "drop (Suc k) ?h1 = []" by (simp add: h)
    then show "conversation_history ?s2 = [conversation_history s ! 0]"
      by (simp add: shape h)
  qed
  have evicted: "conversation_history s \<noteq> []
                   \<and> fst (total_tokens_used ev ?s1) \<noteq> None
                   \<and> evicting ev s [conversation_history s ! 0, ?u]
                   \<longrightarrow> conversation_history ?s2 = [conversation_history s ! 0]"
  proof
    assume a: "conversation_history s \<noteq> []
                 \<and> fst (total_tokens_used ev ?s1) \<noteq> None
                 \<and> evicting ev s [conversation_history s ! 0, ?u]"
    then obtain x mid where h: "conversation_history s = x # mid"
      by (cases "conversation_history s") auto
    have hist: "conversation_history ?s1 = x # mid @ [?u]" by (simp add: h)
    from a have counted: "fst (total_tokens_used ev ?s1) \<noteq> None" by simp
    from a have "evicting ev s [x, ?u]" by (simp add: h)
    then have over: "evicting ev ?s1 [x, ?u]"
      using evicting_cong [of ?s1 s ev "[x, ?u]"] by simp
    from enforce_token_budget_evicts_all [OF hist counted over]
    show "conversation_history ?s2 = [conversation_history s ! 0]"
      by (simp add: append_prompt_def h)
  qed
  have fst_call: "fst (chat_completion ev prompt temperature max_tokens model s) = Inr None"
    and snd_call: "conversation_history
                     (snd (chat_completion ev prompt temperature max_tokens model s))
                   = conversation_history ?s2"
    by (simp_all add: call print_def)
  from shape have ex: "\<exists>k. conversation_history ?s2 = take 1 ?h1 @ drop (Suc k) ?h1"
    by blast
  show ?thesis
    unfolding fst_call snd_call
    by (intro conjI refl ex last_kept only_head evicted)
qed

text \<open>
  With the default budget the user's message stays; with a budget of 50 tokens and a
  system message of 70 it is evicted.
\<close>

theorem chat_completion_service_failure_witness:
  "create env_down (resolve None (default_model fresh_state))
     (conversation_history (append_prompt env_down (str_of ''hi'') fresh_state))
     (resolve None (default_temperature fresh_state))
     (resolve None (default_max_tokens fresh_state)) = Inl APIError
   \<and> 1 < length (conversation_history
                   (snd (chat_completion env_down (str_of ''hi'') None None None fresh_state)))
   \<and> fst (chat_completion env_down (str_of ''hi'') None None None fresh_state) = Inr None
   \<and> last (conversation_history
              (snd (chat_completion env_down (str_of ''hi'') None None None fresh_state)))
       = \<lparr>role = USER, content = str_of ''hi''\<rparr>
   \<and> create env_down (resolve None (default_model tight_state))
       (conversation_history (append_prompt env_down (str_of ''hi'') tight_state))
       (resolve None (default_temperature tight_state))
       (resolve None (default_max_tokens tight_state)) = Inl APIError
   \<and> conversation_history tight_state \<noteq> []
   \<and> fst (total_tokens_used env_down
            (tight_state\<lparr>conversation_history :=
               conversation_history tight_state
                 @ [\<lparr>role = USER, content = str_of ''hi''\<rparr>]\<rparr>)) \<noteq> None
   \<and> evicting env_down tight_state
       [conversation_history tight_state ! 0, \<lparr>role = USER, content = str_of ''hi''\<rparr>]
   \<and> conversation_history
       (snd (chat_completion env_down (str_of ''hi'') None None None tight_state))
       = [conversation_history tight_state ! 0]"
proof -
  have down: "create env_down (resolve None (default_model fresh_state))
     (conversation_history (append_prompt env_down (str_of ''hi'') fresh_state))
     (resolve None (default_temperature fresh_state))
     (resolve None (default_max_tokens fresh_state)) = Inl APIError"
    by simp
  have down': "create env_down (resolve None (default_model tight_state))
     (conversation_history (append_prompt env_down (str_of ''hi'') tight_state))
     (resolve None (default_temperature tight_state))
     (resolve None (default_max_tokens tight_state)) = Inl APIError"
    by simp
  have nonempty: "conversation_history tight_state \<noteq> []"
    by (simp add: tight_state_def)
  have counted: "fst (total_tokens_used env_down
            (tight_state\<lparr>conversation_history :=
               conversation_history tight_state
                 @ [\<lparr>role = USER, content = str_of ''hi''\<rparr>]\<rparr>)) \<noteq> None"
    by (simp add: total_tokens_used_def tight_state_def)
  have over: "evicting env_down tight_state
       [conversation_history tight_state ! 0, \<lparr>role = USER, content = str_of ''hi''\<rparr>]"
    by (simp add: evicting_def total_tokens_used_def tight_state_def str_of_def
          normal_assistant_text_def)
  from chat_completion_service_failure [OF down] down append_prompt_fresh_state
  have kept: "1 < length (conversation_history
                   (snd (chat_completion env_down (str_of ''hi'') None None None fresh_state)))
   \<and> fst (chat_completion env_down (str_of ''hi'') None None None fresh_state) = Inr None
   \<and> last (conversation_history
              (snd (chat_completion env_down (str_of ''hi'') None None None fresh_state)))
       = \<lparr>role = USER, content = str_of ''hi''\<rparr>"
    by simp
  from chat_completion_service_failure [OF down'] nonempty counted over
  have "conversation_history
       (snd (chat_completion env_down (str_of ''hi'') None None None tight_state))
       = [conversation_history tight_state ! 0]"
    by blast
  with down down' nonempty counted over kept show ?thesis
    by (intro conjI) simp_all
qed

text \<open>
  With a budget of 50 tokens, a system message of 70 and a completion service that is
  down, the prompt is appended and then evicted: the transcript ends with the system
  message, not with the user's message.
\<close>

theorem chat_completion_evicts_prompt_counterexample:
  "fst (chat_completion env_down (str_of ''hi'') None None None tight_state) = Inr None
   \<and> conversation_history
       (snd (chat_completion env_down (str_of ''hi'') None None None tight_state))
       = [\<lparr>role = SYSTEM, content = normal_assistant_text\<rparr>]
   \<and> last (conversation_history
              (snd (chat_completion env_down (str_of ''hi'') None None None tight_state)))
       \<noteq> \<lparr>role = USER, content = str_of ''hi''\<rparr>"
  by (simp add: chat_completion_def Let_def print_def append_prompt_tight_state)


section \<open>Reading back what the encoder wrote: strings\<close>

lemma hexval_hexdigit: "d < 16 \<Longrightarrow> hexval (hexdigit d) = Some d"
  by (auto simp: hexval_def hexdigit_def)

lemma hex4_value:
  assumes "(n::nat) < 65536"
  shows "((n div 4096 mod 16 * 16 + n div 256 mod 16) * 16 + n div 16 mod 16) * 16 + n mod 16 = n"
proof -
  define a where "a = n div 16"
  define b where "b = a div 16"
  define c where "c = b div 16"
  define r0 where "r0 = n mod 16"
  define r1 where "r1 = a mod 16"
  define r2 where "r2 = b mod 16"
  have n: "n = 16 * a + r0" by (simp add: a_def r0_def)
  have a: "a = 16 * b + r1" by (simp add: b_def r1_def)
  have b: "b = 16 * c + r2" by (simp add: c_def r2_def)
  have d256: "n div 256 = b" by (simp add: a_def b_def div_mult2_eq)
  have d4096: "n div 4096 = c" by (simp add: a_def b_def c_def div_mult2_eq)
  have "c < 16" using assms unfolding d4096 [symmetric] by simp
  then have c: "c mod 16 = c" by simp
  have "((c * 16 + r2) * 16 + r1) * 16 + r0 = 16 * (16 * (16 * c + r2) + r1) + r0"
    by (simp add: algebra_simps)
  also have "\<dots> = n" using n a b by simp
  finally have "((c * 16 + r2) * 16 + r1) * 16 + r0 = n" .
  then show ?thesis
    unfolding d256 d4096 c r0_def r1_def r2_def a_def [symmetric] .
qed

lemma decode_uXXXX_digits:
  "a < 16 \<Longrightarrow> b < 16 \<Longrightarrow> c < 16 \<Longrightarrow> d < 16
   \<Longrightarrow> decode_uXXXX (hexdigit a # hexdigit b # hexdigit c # hexdigit d # t)
         = Some (((a * 16 + b) * 16 + c) * 16 + d)"
  by (simp add: decode_uXXXX_def hexval_hexdigit)

lemma decode_uXXXX_hex4:
  assumes "n < 65536"
  shows "decode_uXXXX (hex4 n @ t) = Some n"
proof -
  have "decode_uXXXX (hex4 n @ t)
          = Some (((n div 4096 mod 16 * 16 + n div 256 mod 16) * 16 + n div 16 mod 16) * 16
                    + n mod 16)"
    unfolding hex4_def append_Cons append_Nil
    by (rule decode_uXXXX_digits) simp_all
  then show ?thesis by (simp only: hex4_value [OF assms])
qed

lemma length_hex4 [simp]: "length (hex4 n) = 4"
  by (simp add: hex4_def)

lemma drop_hex4 [simp]: "drop 4 (hex4 n @ t) = t"
  by (simp add: hex4_def)

lemma drop_hex4_more: "drop (4 + k) (hex4 n @ t) = drop k t"
  by (metis add.commute drop_drop drop_hex4)

lemma escape_char_short:
  "short_escaped c \<Longrightarrow> \<exists>x. escape_char c = [92, x] \<and> x \<noteq> 117 \<and> backslash x = Some c"
  by (auto simp: short_escaped_def escape_char_def backslash_def)

lemma escape_char_literal: "literal c \<Longrightarrow> escape_char c = [c]"
  by (auto simp: literal_def escape_char_def)

lemma escape_char_u:
  "\<not> short_escaped c \<Longrightarrow> \<not> literal c \<Longrightarrow> c < 65536
   \<Longrightarrow> escape_char c = [92, 117] @ hex4 c"
  by (auto simp: short_escaped_def literal_def escape_char_def)

lemma escape_char_pair:
  "65536 \<le> c \<Longrightarrow>
   escape_char c = [92, 117] @ hex4 (55296 + ((c - 65536) div 1024) mod 1024)
                     @ [92, 117] @ hex4 (56320 + (c - 65536) mod 1024)"
  by (auto simp: escape_char_def Let_def)

lemma pair_value:
  assumes "65536 \<le> (c::nat)" "c < 1114112"
  shows "65536 + ((55296 + ((c - 65536) div 1024) mod 1024 - 55296) * 1024
                   + (56320 + (c - 65536) mod 1024 - 56320)) = c"
proof -
  define m where "m = c - 65536"
  have "m < 1024 * 1024" using assms by (simp add: m_def)
  then have "m div 1024 < 1024" by (rule less_mult_imp_div_less)
  then have "(m div 1024) mod 1024 = m div 1024" by simp
  moreover have "m div 1024 * 1024 + m mod 1024 = m" by simp
  ultimately have "65536 + ((55296 + (m div 1024) mod 1024 - 55296) * 1024
                     + (56320 + m mod 1024 - 56320)) = 65536 + m"
    by simp
  then show ?thesis using assms by (simp add: m_def)
qed

lemma pair_ranges:
  assumes "65536 \<le> (c::nat)" "c < 1114112"
  shows "55296 + ((c - 65536) div 1024) mod 1024 < 65536"
    and "55296 \<le> 55296 + ((c - 65536) div 1024) mod 1024"
    and "55296 + ((c - 65536) div 1024) mod 1024 \<le> 56319"
    and "56320 + (c - 65536) mod 1024 < 65536"
    and "56320 \<le> 56320 + (c - 65536) mod 1024"
    and "56320 + (c - 65536) mod 1024 \<le> 57343"
proof -
  have a: "((c - 65536) div 1024) mod 1024 < 1024" and b: "(c - 65536) mod 1024 < 1024"
    by simp_all
  from a show "55296 + ((c - 65536) div 1024) mod 1024 < 65536" by linarith
  show "55296 \<le> 55296 + ((c - 65536) div 1024) mod 1024" by simp
  from a show "55296 + ((c - 65536) div 1024) mod 1024 \<le> 56319" by linarith
  from b show "56320 + (c - 65536) mod 1024 < 65536" by linarith
  show "56320 \<le> 56320 + (c - 65536) mod 1024" by simp
  from b show "56320 + (c - 65536) mod 1024 \<le> 57343" by linarith
qed

lemma char_classes:
  assumes "c < 1114112"
  obtains "short_escaped c" | "literal c"
    | "\<not> short_escaped c" "\<not> literal c" "c < 65536"
    | "65536 \<le> c"
  using assms by fastforce

lemma scanstring_short:
  "x \<noteq> 117 \<Longrightarrow> backslash x = Some c
   \<Longrightarrow> scanstring (92 # x # s) chunks = scanstring s (chunks @ [c])"
  by simp

lemma scanstring_literal:
  "literal c \<Longrightarrow> scanstring (c # s) chunks = scanstring s (chunks @ [c])"
  by (simp add: literal_def)

lemma scanstring_u_single:
  assumes "decode_uXXXX s = Some uni"
    and "\<not> (55296 \<le> uni \<and> uni \<le> 56319 \<and> take 2 (drop 4 s) = [92, 117]
             \<and> (\<forall>uni2. decode_uXXXX (drop 6 s) = Some uni2 \<longrightarrow> 56320 \<le> uni2 \<and> uni2 \<le> 57343))"
  shows "scanstring (92 # 117 # s) chunks = scanstring (drop 4 s) (chunks @ [uni])"
  using assms by (auto split: option.splits)

lemma scanstring_u_pair:
  assumes "decode_uXXXX s = Some uni" "55296 \<le> uni" "uni \<le> 56319"
    and "take 2 (drop 4 s) = [92, 117]"
    and "decode_uXXXX (drop 6 s) = Some uni2" "56320 \<le> uni2" "uni2 \<le> 57343"
  shows "scanstring (92 # 117 # s) chunks
           = scanstring (drop 10 s) (chunks @ [65536 + ((uni - 55296) * 1024 + (uni2 - 56320))])"
  using assms by simp

lemma no_low_follows:
  assumes "valid_str cs"
    and "cs \<noteq> [] \<Longrightarrow> \<not> (56320 \<le> hd cs \<and> hd cs \<le> 57343)"
  shows "\<not> (take 2 (concat (map escape_char cs) @ 34 # rest) = [92, 117]
            \<and> (\<forall>uni2. decode_uXXXX (drop 2 (concat (map escape_char cs) @ 34 # rest)) = Some uni2
                   \<longrightarrow> 56320 \<le> uni2 \<and> uni2 \<le> 57343))"
proof (cases cs)
  case Nil
  then show ?thesis by simp
next
  case (Cons d ds)
  define t where "t = concat (map escape_char ds) @ 34 # rest"
  have whole: "concat (map escape_char cs) @ 34 # rest = escape_char d @ t"
    by (simp add: Cons t_def)
  from assms(1) Cons have "d < 1114112" by (simp add: valid_str_def)
  then show ?thesis
  proof (cases d rule: char_classes)
    case 1
    then obtain x where "escape_char d = [92, x]" "x \<noteq> 117"
      using escape_char_short by blast
    then show ?thesis unfolding whole by simp
  next
    case 2
    then have "escape_char d = [d]" "d \<noteq> 92"
      by (simp_all add: escape_char_literal literal_def)
    then show ?thesis unfolding whole by simp
  next
    case 3
    then have e: "escape_char d = [92, 117] @ hex4 d" by (simp add: escape_char_u)
    have "decode_uXXXX (drop 2 (escape_char d @ t)) = Some d"
      unfolding e using decode_uXXXX_hex4 [OF 3(3)] by simp
    moreover have "\<not> (56320 \<le> d \<and> d \<le> 57343)" using assms(2) Cons by simp
    ultimately show ?thesis unfolding whole by auto
  next
    case 4
    let ?s1 = "55296 + ((d - 65536) div 1024) mod 1024"
    let ?s2 = "56320 + (d - 65536) mod 1024"
    have e: "escape_char d = [92, 117] @ hex4 ?s1 @ [92, 117] @ hex4 ?s2"
      using 4 by (rule escape_char_pair)
    have "decode_uXXXX (drop 2 (escape_char d @ t)) = Some ?s1"
      unfolding e using decode_uXXXX_hex4 [OF pair_ranges(1) [OF 4 \<open>d < 1114112\<close>]] by simp
    moreover have "\<not> (56320 \<le> ?s1 \<and> ?s1 \<le> 57343)"
      using pair_ranges(3) [OF 4 \<open>d < 1114112\<close>] by linarith
    ultimately show ?thesis unfolding whole by auto
  qed
qed

lemma scanstring_step:
  assumes c: "c < 1114112" and vcs: "valid_str cs"
    and next_one: "55296 \<le> c \<and> c \<le> 56319 \<and> cs \<noteq> []
                     \<longrightarrow> \<not> (56320 \<le> hd cs \<and> hd cs \<le> 57343)"
  shows "scanstring (escape_char c @ concat (map escape_char cs) @ 34 # rest) chunks
           = scanstring (concat (map escape_char cs) @ 34 # rest) (chunks @ [c])"
proof -
  define t where "t = concat (map escape_char cs) @ 34 # rest"
  have "scanstring (escape_char c @ t) chunks = scanstring t (chunks @ [c])"
    using c
  proof (cases c rule: char_classes)
    case 1
    then obtain x where "escape_char c = [92, x]" "x \<noteq> 117" "backslash x = Some c"
      using escape_char_short by blast
    then show ?thesis by (simp add: scanstring_short del: scanstring.simps)
  next
    case 2
    then show ?thesis
      by (simp add: escape_char_literal scanstring_literal del: scanstring.simps)
  next
    case 3
    then have e: "escape_char c @ t = 92 # 117 # hex4 c @ t" by (simp add: escape_char_u)
    have dec: "decode_uXXXX (hex4 c @ t) = Some c" by (rule decode_uXXXX_hex4 [OF 3(3)])
    have nolow: "\<not> (55296 \<le> c \<and> c \<le> 56319 \<and> take 2 (drop 4 (hex4 c @ t)) = [92, 117]
             \<and> (\<forall>uni2. decode_uXXXX (drop 6 (hex4 c @ t)) = Some uni2
                    \<longrightarrow> 56320 \<le> uni2 \<and> uni2 \<le> 57343))"
    proof (cases "55296 \<le> c \<and> c \<le> 56319")
      case False
      then show ?thesis by blast
    next
      case True
      have d6: "drop 6 (hex4 c @ t) = drop 2 t"
        using drop_hex4_more [of 2 c t] by simp
      from True next_one have "cs \<noteq> [] \<Longrightarrow> \<not> (56320 \<le> hd cs \<and> hd cs \<le> 57343)"
        by blast
      from no_low_follows [OF vcs this, of rest]
      have "\<not> (take 2 t = [92, 117]
                \<and> (\<forall>uni2. decode_uXXXX (drop 2 t) = Some uni2
                       \<longrightarrow> 56320 \<le> uni2 \<and> uni2 \<le> 57343))"
        unfolding t_def by blast
      then show ?thesis unfolding d6 drop_hex4 by blast
    qed
    show ?thesis
      unfolding e using scanstring_u_single [OF dec nolow, of chunks] by simp
  next
    case 4
    let ?s1 = "55296 + ((c - 65536) div 1024) mod 1024"
    let ?s2 = "56320 + (c - 65536) mod 1024"
    define u where "u = hex4 ?s1 @ [92, 117] @ hex4 ?s2 @ t"
    have e: "escape_char c @ t = 92 # 117 # u"
      using escape_char_pair [OF 4] by (simp add: u_def)
    note r = pair_ranges [OF 4 c]
    have dec1: "decode_uXXXX u = Some ?s1"
      unfolding u_def by (rule decode_uXXXX_hex4 [OF r(1)])
    have d4: "drop 4 u = 92 # 117 # hex4 ?s2 @ t" by (simp add: u_def)
    have t2: "take 2 (drop 4 u) = [92, 117]" by (simp add: d4)
    have d6: "drop 6 u = hex4 ?s2 @ t"
      using drop_hex4_more [of 2 ?s1 "[92, 117] @ hex4 ?s2 @ t"] by (simp add: u_def)
    have dec2: "decode_uXXXX (drop 6 u) = Some ?s2"
      unfolding d6 by (rule decode_uXXXX_hex4 [OF r(4)])
    have d10: "drop 10 u = t"
      using drop_hex4_more [of 6 ?s1 "[92, 117] @ hex4 ?s2 @ t"] by (simp add: u_def)
    from scanstring_u_pair [OF dec1 r(2) r(3) t2 dec2 r(5) r(6), of chunks]
    show ?thesis unfolding e d10 pair_value [OF 4 c] .
  qed
  then show ?thesis by (simp add: t_def)
qed

text \<open>A high surrogate and the low surrogate after it are read as one code point.\<close>

lemma scanstring_pair_step:
  assumes a: "55296 \<le> a" "a \<le> 56319" and b: "56320 \<le> b" "b \<le> 57343"
  shows "scanstring (escape_char a @ escape_char b @ t) chunks
           = scanstring t (chunks @ [65536 + ((a - 55296) * 1024 + (b - 56320))])"
proof -
  from a have a_small: "a < 65536" by simp
  from b have b_small: "b < 65536" by simp
  have ea: "escape_char a = [92, 117] @ hex4 a"
    using a by (intro escape_char_u) (simp_all add: short_escaped_def literal_def)
  have eb: "escape_char b = [92, 117] @ hex4 b"
    using b by (intro escape_char_u) (simp_all add: short_escaped_def literal_def)
  define u where "u = hex4 a @ [92, 117] @ hex4 b @ t"
  have e: "escape_char a @ escape_char b @ t = 92 # 117 # u"
    by (simp add: ea eb u_def)
  have dec1: "decode_uXXXX u = Some a"
    unfolding u_def by (rule decode_uXXXX_hex4 [OF a_small])
  have d4: "drop 4 u = 92 # 117 # hex4 b @ t" by (simp add: u_def)
  have t2: "take 2 (drop 4 u) = [92, 117]" by (simp add: d4)
  have d6: "drop 6 u = hex4 b @ t"
    using drop_hex4_more [of 2 a "[92, 117] @ hex4 b @ t"] by (simp add: u_def)
  have dec2: "decode_uXXXX (drop 6 u) = Some b"
    unfolding d6 by (rule decode_uXXXX_hex4 [OF b_small])
  have d10: "drop 10 u = t"
    using drop_hex4_more [of 6 a "[92, 117] @ hex4 b @ t"] by (simp add: u_def)
  from scanstring_u_pair [OF dec1 a t2 dec2 b, of chunks]
  show ?thesis unfolding e d10 .
qed

lemma scanstring_merged:
  assumes "valid_str x"
  shows "scanstring (concat (map escape_char x) @ 34 # rest) chunks
           = Some (chunks @ merge_pairs x, rest)"
  using assms
proof (induction x arbitrary: chunks rule: merge_pairs.induct)
  case 1
  show ?case by simp
next
  case (2 a)
  then have "a < 1114112" by (simp add: valid_str_def)
  from scanstring_step [OF this, of "[]" rest chunks]
  show ?case by (simp add: valid_str_def del: scanstring.simps) simp
next
  case (3 a b s)
  from "3.prems" have a: "a < 1114112" and vbs: "valid_str (b # s)" and vs: "valid_str s"
    by (simp_all add: valid_str_def)
  show ?case
  proof (cases "55296 \<le> a \<and> a \<le> 56319 \<and> 56320 \<le> b \<and> b \<le> 57343")
    case True
    then have a': "55296 \<le> a" "a \<le> 56319" and b': "56320 \<le> b" "b \<le> 57343"
      by simp_all
    have "scanstring (concat (map escape_char (a # b # s)) @ 34 # rest) chunks
            = scanstring (concat (map escape_char s) @ 34 # rest)
                (chunks @ [65536 + ((a - 55296) * 1024 + (b - 56320))])"
      using scanstring_pair_step [OF a' b', of "concat (map escape_char s) @ 34 # rest" chunks]
      by simp
    also have "\<dots> = Some ((chunks @ [65536 + ((a - 55296) * 1024 + (b - 56320))])
                            @ merge_pairs s, rest)"
      by (rule "3.IH"(1) [OF True vs])
    finally show ?thesis using True by simp
  next
    case False
    then have next_one: "55296 \<le> a \<and> a \<le> 56319 \<and> b # s \<noteq> []
                           \<longrightarrow> \<not> (56320 \<le> hd (b # s) \<and> hd (b # s) \<le> 57343)"
      by auto
    have "scanstring (concat (map escape_char (a # b # s)) @ 34 # rest) chunks
            = scanstring (concat (map escape_char (b # s)) @ 34 # rest) (chunks @ [a])"
      using scanstring_step [OF a vbs next_one, of rest chunks] by simp
    also have "\<dots> = Some ((chunks @ [a]) @ merge_pairs (b # s), rest)"
      by (rule "3.IH"(2) [OF False vbs])
    finally show ?thesis using False by simp
  qed
qed

lemma merge_pairs_same: "no_surrogate_pair x \<Longrightarrow> merge_pairs x = x"
  by (induction x rule: merge_pairs.induct) auto

lemma reads_back_merged: "valid_str x \<Longrightarrow> reads_back x (merge_pairs x)"
  by (simp add: reads_back_def scanstring_merged)

lemma reads_back_self: "valid_str x \<Longrightarrow> no_surrogate_pair x \<Longrightarrow> reads_back x x"
  using reads_back_merged [of x] by (simp add: merge_pairs_same)

lemma reads_back_surrogates: "reads_back [55357, 56832] [128512]"
  by (simp add: reads_back_def escape_char_def hex4_def hexdigit_def decode_uXXXX_def hexval_def)

section \<open>Reading back what the encoder wrote: transcripts\<close>

lemma punctuation:
  "str_of ''{'' = [123]" "str_of ''}'' = [125]" "str_of ''['' = [91]" "str_of '']'' = [93]"
  "str_of '','' = [44]" "str_of '': '' = [58, 32]" "str_of ''[]'' = [91, 93]"
  by (simp_all add: str_of_def)

lemma skip_ws_Cons: "\<not> is_ws c \<Longrightarrow> skip_ws (c # s) = c # s"
  by (simp add: skip_ws_def)

lemma skip_ws_blank: "skip_ws (32 # s) = skip_ws s"
  by (simp add: skip_ws_def is_ws_def)

lemma skip_ws_newline_indent:
  "\<not> is_ws c \<Longrightarrow> skip_ws (newline_indent k @ c # s) = c # s"
proof -
  assume c: "\<not> is_ws c"
  have "\<And>x. x \<in> set (newline_indent k) \<Longrightarrow> is_ws x"
    by (auto simp: newline_indent_def is_ws_def)
  then have "dropWhile is_ws (newline_indent k @ c # s) = dropWhile is_ws (c # s)"
    by (rule dropWhile_append2)
  with c show ?thesis by (simp add: skip_ws_def)
qed

lemma not_ws [simp]:
  "\<not> is_ws 34" "\<not> is_ws 44" "\<not> is_ws 58" "\<not> is_ws 91" "\<not> is_ws 93" "\<not> is_ws 123" "\<not> is_ws 125"
  by (simp_all add: is_ws_def)

lemma reads_back_keys:
  "reads_back (str_of ''role'') (str_of ''role'')"
  "reads_back (str_of ''content'') (str_of ''content'')"
  by (rule reads_back_self; simp add: str_of_def valid_str_def)+

lemma scan_once_string:
  "reads_back x y \<Longrightarrow> scan_once (Suc n) (encode_basestring_ascii x @ rest) = Ok (JString y) rest"
  by (simp add: reads_back_def encode_basestring_ascii_def)

lemma scanstring_key:
  "reads_back x y \<Longrightarrow>
   scanstring (concat (map escape_char x) @ 34 # rest) [] = Some (y, rest)"
  by (simp add: reads_back_def)

lemma skip_ws_string:
  "skip_ws (encode_basestring_ascii x @ s) = encode_basestring_ascii x @ s"
  by (simp add: encode_basestring_ascii_def skip_ws_Cons)

lemma scan_once_message:
  assumes "message_reads_back m m'"
  shows "scan_once (Suc (Suc (Suc (Suc n)))) (encode_message 1 m @ rest)
           = Ok (json_of_message m') rest"
proof -
  from assms have rb: "reads_back (role m) (role m')" and cb: "reads_back (content m) (content m')"
    by (simp_all add: message_reads_back_def)
  define v2 where "v2 = newline_indent 1 @ 125 # rest"
  define k2 where "k2 = concat (map escape_char (str_of ''content'')) @ 34 # 58 # 32
                          # encode_basestring_ascii (content m) @ v2"
  define v1 where "v1 = 44 # newline_indent 2 @ 34 # k2"
  define k1 where "k1 = concat (map escape_char (str_of ''role'')) @ 34 # 58 # 32
                          # encode_basestring_ascii (role m) @ v1"
  have whole: "encode_message 1 m @ rest = 123 # newline_indent 2 @ 34 # k1"
    by (simp add: encode_message_def punctuation encode_basestring_ascii_def
          k1_def v1_def k2_def v2_def numeral_2_eq_2)
  have key2: "scanstring k2 [] = Some (str_of ''content'',
                 58 # 32 # encode_basestring_ascii (content m) @ v2)"
    unfolding k2_def by (rule scanstring_key [OF reads_back_keys(2)])
  have val2: "scan_once (Suc n) (encode_basestring_ascii (content m) @ v2)
                = Ok (JString (content m')) v2"
    by (rule scan_once_string [OF cb])
  have end2: "skip_ws v2 = 125 # rest"
    unfolding v2_def by (rule skip_ws_newline_indent) simp
  have loop2: "\<And>pairs. object_loop (Suc (Suc n)) k2 pairs
                 = Ok (JObject (pairs @ [(str_of ''content'', JString (content m'))])) rest"
    by (simp add: key2 skip_ws_Cons skip_ws_blank skip_ws_string val2 end2
        del: scan_once.simps)
  have key1: "scanstring k1 [] = Some (str_of ''role'',
                 58 # 32 # encode_basestring_ascii (role m) @ v1)"
    unfolding k1_def by (rule scanstring_key [OF reads_back_keys(1)])
  have val1: "scan_once (Suc (Suc n)) (encode_basestring_ascii (role m) @ v1)
                = Ok (JString (role m')) v1"
    by (rule scan_once_string [OF rb])
  have next1: "skip_ws (newline_indent 2 @ 34 # k2) = 34 # k2"
    by (rule skip_ws_newline_indent) simp
  have loop1: "object_loop (Suc (Suc (Suc n))) k1 [] = Ok (json_of_message m') rest"
    using loop2 [of "[(str_of ''role'', JString (role m'))]"]
    by (simp add: key1 skip_ws_Cons skip_ws_blank skip_ws_string val1 json_of_message_def
        del: scan_once.simps)
       (simp add: v1_def skip_ws_Cons next1)
  have start: "skip_ws (10 # replicate 8 32 @ 34 # k1) = 34 # k1"
    using skip_ws_newline_indent [of 34 2 k1] by (simp add: newline_indent_def)
  have whole': "encode_message 1 m @ rest = 123 # 10 # replicate 8 32 @ 34 # k1"
    unfolding whole by (simp add: newline_indent_def)
  show ?thesis
    unfolding whole' by (simp add: start loop1 del: object_loop.simps)
qed

lemma encode_message_head: "\<exists>s. encode_message k m = 123 # s"
  by (simp add: encode_message_def punctuation)

lemma encode_items_head: "h \<noteq> [] \<Longrightarrow> \<exists>s. encode_items h = 123 # s"
proof (induction h rule: encode_items.induct)
  case 1
  then show ?case by simp
next
  case (2 m)
  then show ?case using encode_message_head [of 1 m] by simp
next
  case (3 m v va)
  obtain s where "encode_message 1 m = 123 # s" using encode_message_head by blast
  then show ?case by simp
qed

lemma length_encode_items: "length h \<le> length (encode_items h)"
proof (induction h rule: encode_items.induct)
  case 1
  then show ?case by simp
next
  case (2 m)
  obtain s where "encode_message 1 m = 123 # s" using encode_message_head by blast
  then show ?case by simp
next
  case (3 m v va)
  obtain s where "encode_message 1 m = 123 # s" using encode_message_head by blast
  with 3 show ?case by simp
qed

lemma array_loop_items:
  assumes "list_all2 message_reads_back h h'" and "h \<noteq> []" and "length h + 4 \<le> n"
  shows "array_loop n (encode_items h @ newline_indent 0 @ 93 # rest) vs
           = Ok (JArray (vs @ map json_of_message h')) rest"
  using assms
proof (induction h arbitrary: h' n vs)
  case Nil
  then show ?case by simp
next
  case (Cons m ms)
  from Cons.prems(1) obtain m' ms' where h': "h' = m' # ms'"
    and m: "message_reads_back m m'" and ms: "list_all2 message_reads_back ms ms'"
    by (auto simp: list_all2_Cons1)
  define k where "k = n - 5"
  have n: "n = Suc (Suc (Suc (Suc (Suc k))))" and k: "length ms \<le> k"
    using Cons.prems(3) unfolding k_def by simp_all
  show ?case
  proof (cases ms)
    case Nil
    with ms have "ms' = []" by simp
    have stop: "skip_ws (newline_indent 0 @ 93 # rest) = 93 # rest"
      by (rule skip_ws_newline_indent) simp
    show ?thesis
      unfolding n
      by (subst array_loop.simps(2))
         (simp add: Nil \<open>ms' = []\<close> h' scan_once_message [OF m, unfolded One_nat_def] stop
            del: scan_once.simps array_loop.simps)
  next
    case (Cons m2 ms2)
    define tail where "tail = encode_items ms @ newline_indent 0 @ 93 # rest"
    from Cons obtain s where items: "encode_items ms = 123 # s"
      using encode_items_head [of ms] by auto
    have whole: "encode_items (m # ms) @ newline_indent 0 @ 93 # rest
                  = encode_message 1 m @ 44 # newline_indent 1 @ tail"
      by (simp add: Cons tail_def punctuation)
    have next_item: "skip_ws (newline_indent 1 @ tail) = tail"
      unfolding tail_def items using skip_ws_newline_indent [of 123 1] by (simp add: is_ws_def)
    have "length ms + 4 \<le> Suc (Suc (Suc (Suc k)))" using k by simp
    from Cons.IH [OF ms _ this, of "vs @ [json_of_message m']"] Cons
    have rest_loop: "array_loop (Suc (Suc (Suc (Suc k)))) tail (vs @ [json_of_message m'])
                       = Ok (JArray (vs @ map json_of_message h')) rest"
      by (simp add: tail_def h')
    show ?thesis
      unfolding n whole
      by (subst array_loop.simps(2))
         (simp add: scan_once_message [OF m, unfolded One_nat_def] skip_ws_Cons
            next_item [unfolded One_nat_def] rest_loop
            del: scan_once.simps array_loop.simps)
  qed
qed

lemma scan_once_empty_array: "scan_once (Suc n) [91, 93] = Ok (JArray []) []"
  by (simp add: skip_ws_def is_ws_def)

lemma json_loads_json_dumps:
  assumes "list_all2 message_reads_back h h'"
  shows "json_loads (json_dumps h) = Inr (JArray (map json_of_message h'))"
proof (cases "h = []")
  case True
  with assms have h': "h' = []" by simp
  have d: "json_dumps h = [91, 93]" using True by (simp add: json_dumps_def punctuation)
  show ?thesis
    using scan_once_empty_array [of 4]
    by (simp add: json_loads_def d h' skip_ws_def is_ws_def del: scan_once.simps)
next
  case False
  define s where "s = encode_items h @ newline_indent 0 @ 93 # []"
  from False obtain u where items: "encode_items h = 123 # u"
    using encode_items_head by blast
  have dumped: "json_dumps h = 91 # newline_indent 1 @ s"
    using False by (simp add: json_dumps_def punctuation s_def)
  have start: "skip_ws (newline_indent 1 @ s) = s"
    unfolding s_def items using skip_ws_newline_indent [of 123 1] by (simp add: is_ws_def)
  have s_head: "s = 123 # u @ newline_indent 0 @ [93]"
    by (simp add: s_def items)
  have "length h \<le> length (encode_items h)" by (rule length_encode_items)
  then have fuel: "length h + 4 \<le> 2 * length (json_dumps h)"
    unfolding dumped s_def by (simp add: newline_indent_def)
  have loop: "array_loop (2 * length (json_dumps h)) s []
                = Ok (JArray (map json_of_message h')) []"
    using array_loop_items [OF assms False fuel, of "[]" "[]"] by (simp add: s_def)
  have bom: "take 1 (json_dumps h) \<noteq> [65279]"
    by (simp add: dumped)
  have first: "skip_ws (json_dumps h) = 91 # newline_indent 1 @ s"
    by (simp add: dumped skip_ws_Cons)
  have sk: "skip_ws (newline_indent (Suc 0) @ s) = 123 # u @ newline_indent 0 @ [93]"
    using start s_head by simp
  have "scan_once (Suc (2 * length (json_dumps h))) (91 # newline_indent 1 @ s)
          = Ok (JArray (map json_of_message h')) []"
    by (subst scan_once.simps(2))
       (simp add: sk loop [unfolded s_head] del: scan_once.simps array_loop.simps)
  then have res: "scan_once (2 * length (json_dumps h) + 1) (skip_ws (json_dumps h))
                    = Ok (JArray (map json_of_message h')) []"
    unfolding first by simp
  have e: "skip_ws [] = []" by (simp add: skip_ws_def)
  show ?thesis
    unfolding json_loads_def res using bom by (simp add: e)
qed

lemma message_of_json_of_message: "message_of (json_of_message m) = Some m"
  by (simp add: message_of_def json_of_message_def insert_commute)

lemma messages_of_map: "messages_of (map json_of_message h) = Some h"
  by (induction h) (simp_all add: message_of_json_of_message)

lemma transcript_of_dumped: "transcript_of (JArray (map json_of_message h)) = Some h"
  by (simp add: transcript_of_def messages_of_map)

lemma load_after_save:
  assumes written: "write_to (files s) (history_file s) (json_dumps (conversation_history s))
                      = Written"
    and readable: "read_error (files s) (history_file s) = None"
    and later: "files s' = files (save_conversation_history s)"
               "history_file s' = history_file s"
    and reads: "list_all2 message_reads_back (conversation_history s) h'"
  shows "load_conversation_history s' = Loaded (s'\<lparr>conversation_history := h'\<rparr>)"
proof -
  have "files s' = (files s)\<lparr>stored := (stored (files s))
                      (history_file s \<mapsto> json_dumps (conversation_history s))\<rparr>"
    using written by (simp add: later(1) save_conversation_history_def write_text_def)
  then have "read_text (files s') (history_file s') = Inr (json_dumps (conversation_history s))"
    using readable by (simp add: read_text_def later(2))
  then show ?thesis
    by (simp add: load_conversation_history_def json_loads_json_dumps [OF reads]
          transcript_of_dumped)
qed

lemma reads_back_transcript:
  assumes "\<forall>m \<in> set h. valid_str (role m) \<and> valid_str (content m)"
  shows "list_all2 message_reads_back h (map merged h)"
  using assms
  by (induction h) (simp_all add: message_reads_back_def merged_def reads_back_merged)

lemma merged_storable: "storable m \<Longrightarrow> merged m = m"
  by (simp add: storable_def merged_def merge_pairs_same)

lemma storable_literal:
  "storable \<lparr>role = SYSTEM, content = str_of ''Be brief.''\<rparr>"
  "storable \<lparr>role = USER, content = str_of ''hello''\<rparr>"
  "storable \<lparr>role = ASSISTANT, content = str_of ''hi there''\<rparr>"
  by (simp_all add: storable_def valid_str_def str_of_def SYSTEM_def USER_def ASSISTANT_def)

text \<open>
  C7, as the code has it. Let \<open>save_conversation_history\<close> succeed in writing a
  transcript of Python strings (their elements are code points), and let the file be
  readable. Then \<open>load_conversation_history\<close>, run by any manager \<open>s'\<close> that has
  the same history path and finds the file system as the save left it, whatever
  transcript it holds itself, sets its transcript to the saved one with every string
  replaced by \<open>merge_pairs\<close> of it: every high surrogate directly followed by a low
  surrogate is merged with it into one code point. When no role or content string
  holds such a pair, the transcript loaded is the very list that was saved: same
  length, same order, same role and content in every position. Nothing else of \<open>s'\<close>
  changes.
\<close>

theorem save_then_load_roundtrip:
  assumes "write_to (files s) (history_file s) (json_dumps (conversation_history s)) = Written"
    and "read_error (files s) (history_file s) = None"
    and "files s' = files (save_conversation_history s)"
    and "history_file s' = history_file s"
    and "\<forall>m \<in> set (conversation_history s). valid_str (role m) \<and> valid_str (content m)"
  shows "load_conversation_history s'
           = Loaded (s'\<lparr>conversation_history := map merged (conversation_history s)\<rparr>)
       \<and> ((\<forall>m \<in> set (conversation_history s).
              no_surrogate_pair (role m) \<and> no_surrogate_pair (content m)) \<longrightarrow>
            load_conversation_history s'
              = Loaded (s'\<lparr>conversation_history := conversation_history s\<rparr>))"
proof -
  have loaded: "load_conversation_history s'
                  = Loaded (s'\<lparr>conversation_history := map merged (conversation_history s)\<rparr>)"
    by (rule load_after_save [OF assms(1-4) reads_back_transcript [OF assms(5)]])
  have "map merged (conversation_history s) = conversation_history s"
    if "\<forall>m \<in> set (conversation_history s).
          no_surrogate_pair (role m) \<and> no_surrogate_pair (content m)"
  proof -
    from that assms(5) have "\<forall>m \<in> set (conversation_history s). merged m = m"
      by (simp add: merged_storable storable_def)
    then show ?thesis by (simp add: map_idI)
  qed
  with loaded show ?thesis by simp
qed

text \<open>
  A manager saves the three messages of \<open>busy_state\<close>; a manager just built, with the
  one system message as its transcript, loads them from the file.
\<close>

theorem save_then_load_roundtrip_witness:
  "write_to (files busy_state) (history_file busy_state)
     (json_dumps (conversation_history busy_state)) = Written
   \<and> read_error (files busy_state) (history_file busy_state) = None
   \<and> history_file fresh_state = history_file busy_state
   \<and> list_all (\<lambda>m. valid_str (role m) \<and> valid_str (content m)
                  \<and> no_surrogate_pair (role m) \<and> no_surrogate_pair (content m))
       (conversation_history busy_state)
   \<and> load_conversation_history
       (fresh_state\<lparr>files := files (save_conversation_history busy_state)\<rparr>)
       = Loaded (fresh_state\<lparr>files := files (save_conversation_history busy_state),
                             conversation_history := conversation_history busy_state\<rparr>)"
proof -
  have written: "write_to (files busy_state) (history_file busy_state)
                   (json_dumps (conversation_history busy_state)) = Written"
    by (simp add: busy_state_def fresh_state_def bare_disk_def)
  have readable: "read_error (files busy_state) (history_file busy_state) = None"
    by (simp add: busy_state_def fresh_state_def bare_disk_def)
  have path: "history_file fresh_state = history_file busy_state"
    by (simp add: busy_state_def)
  have fits: "\<forall>m \<in> set (conversation_history busy_state). storable m"
    by (simp add: storable_literal)
  then have strs: "\<forall>m \<in> set (conversation_history busy_state).
                     valid_str (role m) \<and> valid_str (content m)"
    and pairs: "\<forall>m \<in> set (conversation_history busy_state).
                  no_surrogate_pair (role m) \<and> no_surrogate_pair (content m)"
    by (simp_all add: storable_def)
  have same_files:
    "files (fresh_state\<lparr>files := files (save_conversation_history busy_state)\<rparr>)
       = files (save_conversation_history busy_state)"
    by simp
  have same_path:
    "history_file (fresh_state\<lparr>files := files (save_conversation_history busy_state)\<rparr>)
       = history_file busy_state"
    by (simp add: busy_state_def)
  from save_then_load_roundtrip [OF written readable same_files same_path strs] pairs
  have loaded: "load_conversation_history
       (fresh_state\<lparr>files := files (save_conversation_history busy_state)\<rparr>)
       = Loaded (fresh_state\<lparr>files := files (save_conversation_history busy_state),
                             conversation_history := conversation_history busy_state\<rparr>)"
    by blast
  from strs pairs have strings:
    "list_all (\<lambda>m. valid_str (role m) \<and> valid_str (content m)
                  \<and> no_surrogate_pair (role m) \<and> no_surrogate_pair (content m))
       (conversation_history busy_state)"
    unfolding list_all_iff by blast
  from written readable path strings loaded show ?thesis
    by (intro conjI)
qed

text \<open>
  A content of the two code points \<open>0xD83D\<close>, \<open>0xDE00\<close> is written as
  \<open>"\ud83d\ude00"\<close>, which the decoder reads as the one code point \<open>0x1F600\<close>: the
  write succeeds, and the transcript loaded is not the transcript saved.
\<close>

theorem save_then_load_surrogates_counterexample:
  "write_to (files pair_state) (history_file pair_state)
     (json_dumps (conversation_history pair_state)) = Written
   \<and> conversation_history pair_state = [\<lparr>role = USER, content = [55357, 56832]\<rparr>]
   \<and> load_conversation_history
       (fresh_state\<lparr>files := files (save_conversation_history pair_state)\<rparr>)
       = Loaded (fresh_state\<lparr>files := files (save_conversation_history pair_state),
                             conversation_history := [\<lparr>role = USER, content = [128512]\<rparr>]\<rparr>)"
proof -
  have written: "write_to (files pair_state) (history_file pair_state)
                   (json_dumps (conversation_history pair_state)) = Written"
    by (simp add: pair_state_def fresh_state_def bare_disk_def)
  have readable: "read_error (files pair_state) (history_file pair_state) = None"
    by (simp add: pair_state_def fresh_state_def bare_disk_def)
  have h: "conversation_history pair_state = [\<lparr>role = USER, content = [55357, 56832]\<rparr>]"
    by (simp add: pair_state_def)
  have "reads_back USER USER"
    by (rule reads_back_self) (simp_all add: USER_def str_of_def valid_str_def)
  then have merged_back: "list_all2 message_reads_back (conversation_history pair_state)
                     [\<lparr>role = USER, content = [128512]\<rparr>]"
    by (simp add: h message_reads_back_def reads_back_surrogates)
  from load_after_save
         [of pair_state "fresh_state\<lparr>files := files (save_conversation_history pair_state)\<rparr>",
          OF written readable _ _ merged_back]
       written h
  show ?thesis by (simp add: pair_state_def)
qed

section \<open>Construction\<close>

lemma history_path_default:
  "history_path (str_of ''Past_Conversations'') None (str_of ''010124_120000'') = example_file"
  by (simp add: history_path_def os_path_join_def str_of_def example_file_def)

lemma Conversation_Manager_fresh_state:
  "Conversation_Manager env_up (str_of ''sk-example'') (str_of ''https://api.openai.com/v1'')
     (str_of ''Past_Conversations'') None (str_of ''gpt-3.5-turbo'') (7 / 10) 150 4096
     (str_of ''010124_120000'') bare_disk []
   = Loaded fresh_state"
  by (simp add: Conversation_Manager_def history_path_default load_conversation_history_def
        read_text_def os_path_exists_def os_makedirs_def env_up_def bare_disk_def
        fresh_state_def)

lemma read_text_exists [simp]:
  "read_text (fs\<lparr>exists := answers\<rparr>) path = read_text fs path"
  by (simp add: read_text_def split: option.splits)









section \<open>The built-in table entries are never written\<close>

text \<open>
  \<open>builtin_intact\<close> holds of every manager \<open>__init__\<close> returns and is kept by every
  public operation: only the \<open>custom\<close> entry is ever assigned.
\<close>

lemma custom_not_builtin: "str_of ''custom'' \<notin> set builtin_personas"
  by (simp add: builtin_personas_def)

lemma system_messages_save [simp]:
  "system_messages (save_conversation_history s) = system_messages s"
  by (simp add: save_conversation_history_def write_text_def print_def
      split: write_outcome.splits)

lemma builtin_intact_kept:
  assumes "builtin_intact s"
  shows "builtin_intact (snd (set_persona persona s))"
    and "builtin_intact (snd (set_custom_system_message custom_message s))"
    and "builtin_intact (update_system_message_in_history s)"
    and "builtin_intact (enforce_token_budget ev s)"
    and "builtin_intact (snd (chat_completion ev prompt temperature max_tokens model s))"
    and "builtin_intact (reset_conversation_history s)"
proof -
  show "builtin_intact (snd (set_persona persona s))"
    using assms
    by (auto simp: builtin_intact_def set_persona_def update_system_message_in_history_frame
          split: option.splits)
  show "builtin_intact (snd (set_custom_system_message custom_message s))"
    using assms custom_not_builtin
    by (auto simp: builtin_intact_def set_custom_system_message_def set_persona_def
          update_system_message_in_history_frame)
  show "builtin_intact (update_system_message_in_history s)"
    using assms by (simp add: builtin_intact_def update_system_message_in_history_frame)
  show "builtin_intact (enforce_token_budget ev s)"
    using assms by (simp add: builtin_intact_def enforce_token_budget_fields)
  show "builtin_intact (snd (chat_completion ev prompt temperature max_tokens model s))"
    using assms
    by (simp add: builtin_intact_def chat_completion_def Let_def append_prompt_def print_def
          enforce_token_budget_fields split: sum.splits list.splits)
  show "builtin_intact (reset_conversation_history s)"
    using assms by (simp add: builtin_intact_def reset_conversation_history_def)
qed

lemma builtin_intact_constructed:
  "Conversation_Manager ev api_key base_url' history_folder history_file' default_model'
     default_temperature' default_max_tokens' token_budget' timestamp fs out = Loaded s
   \<Longrightarrow> builtin_intact s"
  by (auto simp: Conversation_Manager_def load_conversation_history_def builtin_intact_def
        split: sum.splits option.splits if_splits)

section \<open>The decoder's fuel suffices\<close>

text \<open>
  Every call of the scanner that returns has consumed at least one character, so
  with the fuel \<open>json_loads\<close> gives, twice the length of the text and one, the
  answer is never \<open>Deep\<close>: every text is decoded or refused.
\<close>

lemma skip_ws_length: "length (skip_ws s) \<le> length s"
  by (simp add: skip_ws_def length_dropWhile_le)

lemma skip_ws_Cons_length: "skip_ws s = c # r \<Longrightarrow> length r < length s"
  using skip_ws_length [of s] by simp

lemma scanstring_length: "scanstring s chunks = Some (x, r) \<Longrightarrow> length r < length s"
proof (induction s chunks arbitrary: x r rule: scanstring.induct)
  case (1 chunks)
  then show ?case by simp
next
  case (2 c s chunks)
  show ?case
  proof (cases "c = 34")
    case True
    with "2.prems" show ?thesis by simp
  next
    case not_quote: False
    show ?thesis
    proof (cases "c = 92")
      case False
      with not_quote "2.prems" have "\<not> c < 32" and "scanstring s (chunks @ [c]) = Some (x, r)"
        by (simp_all split: if_splits)
      with "2.IH"(5) [OF not_quote False] have "length r < length s" by blast
      then show ?thesis by simp
    next
      case True
      with "2.prems" obtain esc s' where s: "s = esc # s'"
        by (cases s) simp_all
      show ?thesis
      proof (cases "esc = 117")
        case False
        with "2.prems" True s obtain ch where b: "backslash esc = Some ch"
          and "scanstring s' (chunks @ [ch]) = Some (x, r)"
          by (auto split: option.splits)
        with "2.IH"(1) [OF not_quote True s False b] have "length r < length s'" by blast
        with s show ?thesis by simp
      next
        case u: True
        with "2.prems" True s obtain uni where d: "decode_uXXXX s' = Some uni"
          by (auto split: option.splits)
        show ?thesis
        proof (cases "55296 \<le> uni \<and> uni \<le> 56319 \<and> take 2 (drop 4 s') = [92, 117]")
          case False
          with "2.prems" True s u d have "scanstring (drop 4 s') (chunks @ [uni]) = Some (x, r)"
            by auto
          with "2.IH"(4) [OF not_quote True s _ d False] u
          have "length r < length (drop 4 s')" by blast
          with s show ?thesis by simp
        next
          case pair: True
          with "2.prems" True s u d obtain uni2 where d2: "decode_uXXXX (drop 6 s') = Some uni2"
            by (auto split: option.splits)
          show ?thesis
          proof (cases "56320 \<le> uni2 \<and> uni2 \<le> 57343")
            case low: True
            with "2.prems" True s u d pair d2
            have "scanstring (drop 10 s')
                    (chunks @ [65536 + ((uni - 55296) * 1024 + (uni2 - 56320))]) = Some (x, r)"
              by auto
            with "2.IH"(2) [OF not_quote True s _ d pair d2 low] u
            have "length r < length (drop 10 s')" by blast
            with s show ?thesis by simp
          next
            case False
            with "2.prems" True s u d pair d2
            have "scanstring (drop 4 s') (chunks @ [uni]) = Some (x, r)"
              by auto
            with "2.IH"(3) [OF not_quote True s _ d pair d2 False] u
            have "length r < length (drop 4 s')" by blast
            with s show ?thesis by simp
          qed
        qed
      qed
    qed
  qed
qed

lemma dropWhile_shorter [simp]:
  "length (dropWhile P xs) < Suc (length xs)"
  "length (dropWhile P xs) < Suc (Suc (length xs))"
  "length (dropWhile P xs) \<le> Suc (length xs)"
  "length (dropWhile P xs) \<le> Suc (Suc (length xs))"
  "length (dropWhile P xs) \<le> Suc (Suc (Suc (length xs)))"
  using length_dropWhile_le [of P xs] by simp_all

lemma match_integer_length: "match_integer s = Some (i, r) \<Longrightarrow> length r < length s"
proof -
  assume a: "match_integer s = Some (i, r)"
  show ?thesis
  proof (cases "take 1 s = [45]")
    case True
    then obtain s1 where s: "s = 45 # s1" by (cases s) simp_all
    with a show ?thesis
      by (cases s1) (auto simp: match_integer_def Let_def split: if_splits)
  next
    case False
    with a show ?thesis
      by (cases s) (auto simp: match_integer_def Let_def split: if_splits)
  qed
qed

lemma match_frac_length: "match_frac s = Some (f, r) \<Longrightarrow> length r \<le> length s"
  by (auto simp: match_frac_def split: list.splits if_splits)

lemma match_exp_length: "match_exp s = Some (f, r) \<Longrightarrow> length r \<le> length s"
proof -
  assume a: "match_exp s = Some (f, r)"
  then obtain e s1 where s: "s = e # s1" by (cases s) (simp_all add: match_exp_def)
  show ?thesis
  proof (cases s1)
    case Nil
    with a s show ?thesis by (simp add: match_exp_def split: if_splits)
  next
    case (Cons a1 s2)
    with a s show ?thesis
      by (cases s2) (auto simp: match_exp_def Let_def split: if_splits)
  qed
qed

lemma match_number_length: "match_number s = Some (v, r) \<Longrightarrow> length r < length s"
proof -
  assume a: "match_number s = Some (v, r)"
  then obtain i s1 where i: "match_integer s = Some (i, s1)"
    by (auto simp: match_number_def split: option.splits)
  define s2 where "s2 = (case match_frac s1 of Some (f, r) \<Rightarrow> r | None \<Rightarrow> s1)"
  define s3 where "s3 = (case match_exp s2 of Some (x, r) \<Rightarrow> r | None \<Rightarrow> s2)"
  have "length s2 \<le> length s1"
    by (auto simp: s2_def split: option.splits dest: match_frac_length)
  moreover have "length s3 \<le> length s2"
    by (auto simp: s3_def split: option.splits dest: match_exp_length)
  moreover have "r = s3"
    using a i by (auto simp: match_number_def s2_def s3_def Let_def split: option.splits if_splits)
  ultimately show ?thesis using match_integer_length [OF i] by simp
qed


lemma literal_rest:
  "take k s = w \<Longrightarrow> w \<noteq> [] \<Longrightarrow> 0 < k \<Longrightarrow> length (drop k s) < length s"
  by (cases s) auto

lemma scan_consumes_step:
  assumes H1: "\<forall>s v r. scan_once n s = Ok v r \<longrightarrow> length r < length s"
    and H2: "\<forall>s vs v r. array_loop n s vs = Ok v r \<longrightarrow> length r < length s"
    and H3: "\<forall>s ps v r. object_loop n s ps = Ok v r \<longrightarrow> length r < length s"
  shows "scan_once (Suc n) s = Ok v r \<Longrightarrow> length r < length s"
    and "array_loop (Suc n) s vs = Ok v r \<Longrightarrow> length r < length s"
    and "object_loop (Suc n) s ps = Ok v r \<Longrightarrow> length r < length s"
proof -
  from H1 have IH1: "\<And>s v r. scan_once n s = Ok v r \<Longrightarrow> length r < length s" by blast
  from H2 have IH2: "\<And>s vs v r. array_loop n s vs = Ok v r \<Longrightarrow> length r < length s"
    by blast
  from H3 have IH3: "\<And>s ps v r. object_loop n s ps = Ok v r \<Longrightarrow> length r < length s"
    by blast
  show "length r < length s" if a: "scan_once (Suc n) s = Ok v r"
  proof (cases s)
    case Nil
    with a show ?thesis by simp
  next
    case (Cons nextchar s1)
    consider (str) "nextchar = 34" | (obj) "nextchar = 123" | (arr) "nextchar = 91"
      | (other) "nextchar \<noteq> 34" "nextchar \<noteq> 123" "nextchar \<noteq> 91"
      by blast
    then show ?thesis
    proof cases
      case str
      with a Cons obtain x where "scanstring s1 [] = Some (x, r)"
        by (auto split: option.splits)
      from scanstring_length [OF this] Cons show ?thesis by simp
    next
      case obj
      define t where "t = (if take 1 s1 = [34] then s1 else skip_ws s1)"
      have tl: "length t \<le> length s1" by (simp add: t_def skip_ws_length)
      from a Cons obj obtain c s2 where t: "t = c # s2"
        by (cases t) (simp_all add: t_def)
      from a Cons obj t have "(c = 34 \<and> object_loop n s2 [] = Ok v r) \<or> (c = 125 \<and> r = s2)"
        by (simp add: t_def split: if_splits)
      then have "length r \<le> length s2"
      proof
        assume "c = 34 \<and> object_loop n s2 [] = Ok v r"
        then have "object_loop n s2 [] = Ok v r" by simp
        from IH3 [OF this] show ?thesis by simp
      next
        assume "c = 125 \<and> r = s2"
        then show ?thesis by simp
      qed
      with tl t Cons show ?thesis by simp
    next
      case arr
      show ?thesis
      proof (cases "skip_ws s1")
        case Nil
        with a Cons arr have "array_loop n [] [] = Ok v r" by simp
        from IH2 [OF this] show ?thesis by simp
      next
        case (Cons c s2)
        have "length (c # s2) \<le> length s1" using skip_ws_length [of s1] Cons by simp
        moreover from a \<open>s = nextchar # s1\<close> arr Cons
        have "(c = 93 \<and> r = s2) \<or> array_loop n (c # s2) [] = Ok v r"
          by (simp split: if_splits)
        then have "length r \<le> length (c # s2)"
        proof
          assume "c = 93 \<and> r = s2"
          then show ?thesis by simp
        next
          assume "array_loop n (c # s2) [] = Ok v r"
          from IH2 [OF this] show ?thesis by simp
        qed
        ultimately show ?thesis using \<open>s = nextchar # s1\<close> by simp
      qed
    next
      case other
      with a Cons have
        "(\<exists>k w. 0 < k \<and> w \<noteq> [] \<and> take k s = w \<and> r = drop k s) \<or> (\<exists>res. match_number s = Some (res, r))"
        by (auto simp: str_of_def split: if_splits option.splits)
      then show ?thesis
        using literal_rest match_number_length by blast
    qed
  qed
  show "length r < length s" if a: "array_loop (Suc n) s vs = Ok v r"
  proof -
    from a obtain v1 s1 where v1: "scan_once n s = Ok v1 s1"
      by (cases "scan_once n s") simp_all
    from a v1 obtain c s2 where sk: "skip_ws s1 = c # s2"
      by (cases "skip_ws s1") simp_all
    from a v1 sk have "(c = 93 \<and> r = s2) \<or> array_loop n (skip_ws s2) (vs @ [v1]) = Ok v r"
      by (simp split: if_splits)
    then have "length r \<le> length s2"
    proof
      assume "c = 93 \<and> r = s2"
      then show ?thesis by simp
    next
      assume "array_loop n (skip_ws s2) (vs @ [v1]) = Ok v r"
      from IH2 [OF this] skip_ws_length [of s2] show ?thesis by simp
    qed
    with IH1 [OF v1] skip_ws_Cons_length [OF sk] show ?thesis by simp
  qed
  show "length r < length s" if a: "object_loop (Suc n) s ps = Ok v r"
  proof -
    from a obtain key s1 where k: "scanstring s [] = Some (key, s1)"
      by (cases "scanstring s []") auto
    from a k obtain colon s2 where sk1: "skip_ws s1 = colon # s2"
      by (cases "skip_ws s1") simp_all
    from a k sk1 have colon: "colon = 58" by (simp split: if_splits)
    from a k sk1 colon obtain v1 s3 where v1: "scan_once n (skip_ws s2) = Ok v1 s3"
      by (cases "scan_once n (skip_ws s2)") simp_all
    from a k sk1 colon v1 obtain c s4 where sk3: "skip_ws s3 = c # s4"
      by (cases "skip_ws s3") simp_all
    have "length r \<le> length s4"
    proof (cases "c = 125")
      case True
      with a k sk1 colon v1 sk3 show ?thesis by simp
    next
      case False
      with a k sk1 colon v1 sk3 have c: "c = 44" by (simp split: if_splits)
      with a k sk1 colon v1 sk3 obtain q s5 where sk4: "skip_ws s4 = q # s5"
        by (cases "skip_ws s4") simp_all
      with a k sk1 colon v1 sk3 c have "object_loop n s5 (ps @ [(key, v1)]) = Ok v r"
        by (simp split: if_splits)
      from IH3 [OF this] skip_ws_Cons_length [OF sk4] show ?thesis by simp
    qed
    with skip_ws_Cons_length [OF sk3] IH1 [OF v1] skip_ws_length [of s2]
         skip_ws_Cons_length [OF sk1] scanstring_length [OF k]
    show ?thesis by linarith
  qed
qed

lemma scan_consumes:
  "(\<forall>s v r. scan_once n s = Ok v r \<longrightarrow> length r < length s)
   \<and> (\<forall>s vs v r. array_loop n s vs = Ok v r \<longrightarrow> length r < length s)
   \<and> (\<forall>s ps v r. object_loop n s ps = Ok v r \<longrightarrow> length r < length s)"
proof (induction n)
  case 0
  show ?case by simp
next
  case (Suc n)
  then have H1: "\<forall>s v r. scan_once n s = Ok v r \<longrightarrow> length r < length s"
    and H2: "\<forall>s vs v r. array_loop n s vs = Ok v r \<longrightarrow> length r < length s"
    and H3: "\<forall>s ps v r. object_loop n s ps = Ok v r \<longrightarrow> length r < length s"
    by simp_all
  show ?case
  proof (intro conjI allI impI)
    fix s v r assume "scan_once (Suc n) s = Ok v r"
    then show "length r < length s" by (rule scan_consumes_step(1) [OF H1 H2 H3])
  next
    fix s vs v r assume "array_loop (Suc n) s vs = Ok v r"
    then show "length r < length s" by (rule scan_consumes_step(2) [OF H1 H2 H3])
  next
    fix s ps v r assume "object_loop (Suc n) s ps = Ok v r"
    then show "length r < length s" by (rule scan_consumes_step(3) [OF H1 H2 H3])
  qed
qed


lemma scan_once_consumes: "scan_once n s = Ok v r \<Longrightarrow> length r < length s"
  using scan_consumes [of n] by blast

lemma fuel_step:
  assumes H1: "\<forall>s. 2 * length s < n \<longrightarrow> scan_once n s \<noteq> Deep"
    and H2: "\<forall>s vs. 2 * length s + 1 < n \<longrightarrow> array_loop n s vs \<noteq> Deep"
    and H3: "\<forall>s ps. 2 * length s + 1 < n \<longrightarrow> object_loop n s ps \<noteq> Deep"
  shows "2 * length s < Suc n \<Longrightarrow> scan_once (Suc n) s \<noteq> Deep"
    and "2 * length s + 1 < Suc n \<Longrightarrow> array_loop (Suc n) s vs \<noteq> Deep"
    and "2 * length s + 1 < Suc n \<Longrightarrow> object_loop (Suc n) s ps \<noteq> Deep"
proof -
  show "scan_once (Suc n) s \<noteq> Deep" if f: "2 * length s < Suc n"
  proof (cases s)
    case Nil
    then show ?thesis by simp
  next
    case (Cons nextchar s1)
    consider (str) "nextchar = 34" | (obj) "nextchar = 123" | (arr) "nextchar = 91"
      | (other) "nextchar \<noteq> 34" "nextchar \<noteq> 123" "nextchar \<noteq> 91"
      by blast
    then show ?thesis
    proof cases
      case str
      with Cons show ?thesis by (simp split: option.splits)
    next
      case obj
      define t where "t = (if take 1 s1 = [34] then s1 else skip_ws s1)"
      have tl: "length t \<le> length s1" by (simp add: t_def skip_ws_length)
      show ?thesis
      proof (cases t)
        case Nil
        with Cons obj show ?thesis by (simp add: t_def)
      next
        case (Cons c s2)
        with tl f \<open>s = nextchar # s1\<close> have "2 * length s2 + 1 < n" by simp
        with H3 have "object_loop n s2 [] \<noteq> Deep" by blast
        with Cons \<open>s = nextchar # s1\<close> obj show ?thesis by (simp add: t_def)
      qed
    next
      case arr
      show ?thesis
      proof (cases "skip_ws s1")
        case Nil
        from f Cons have "2 * length ([]::pystr) + 1 < n" by simp
        with H2 have "array_loop n [] [] \<noteq> Deep" by blast
        with Nil Cons arr show ?thesis by simp
      next
        case inner: (Cons c s2)
        have "length (c # s2) \<le> length s1" using skip_ws_length [of s1] inner by simp
        with f Cons have "2 * length (c # s2) + 1 < n" by simp
        with H2 have "array_loop n (c # s2) [] \<noteq> Deep" by blast
        with inner Cons arr show ?thesis by simp
      qed
    next
      case other
      with Cons show ?thesis by (simp split: option.splits)
    qed
  qed
  show "array_loop (Suc n) s vs \<noteq> Deep" if f: "2 * length s + 1 < Suc n"
  proof (cases "scan_once n s")
    case (Ok v1 s1)
    show ?thesis
    proof (cases "skip_ws s1")
      case Nil
      with Ok show ?thesis by simp
    next
      case (Cons c s2)
      from scan_once_consumes [OF Ok] skip_ws_Cons_length [OF Cons] skip_ws_length [of s2] f
      have "2 * length (skip_ws s2) + 1 < n" by linarith
      with H2 have "array_loop n (skip_ws s2) (vs @ [v1]) \<noteq> Deep" by blast
      with Ok Cons show ?thesis by simp
    qed
  next
    case Fail
    then show ?thesis by simp
  next
    case Deep
    from f have "2 * length s < n" by simp
    with H1 Deep show ?thesis by blast
  qed
  show "object_loop (Suc n) s ps \<noteq> Deep" if f: "2 * length s + 1 < Suc n"
  proof (cases "scanstring s []")
    case None
    then show ?thesis by simp
  next
    case (Some a)
    then obtain key s1 where k: "scanstring s [] = Some (key, s1)" by (cases a) simp
    show ?thesis
    proof (cases "skip_ws s1")
      case Nil
      with k show ?thesis by simp
    next
      case c1: (Cons colon s2)
      have l2: "length (skip_ws s2) < length s"
        using scanstring_length [OF k] skip_ws_Cons_length [OF c1] skip_ws_length [of s2]
        by linarith
      show ?thesis
      proof (cases "scan_once n (skip_ws s2)")
        case (Ok v1 s3)
        show ?thesis
        proof (cases "skip_ws s3")
          case Nil
          with k c1 Ok show ?thesis by simp
        next
          case c3: (Cons c s4)
          show ?thesis
          proof (cases "skip_ws s4")
            case Nil
            with k c1 Ok c3 show ?thesis by simp
          next
            case c4: (Cons q s5)
            from scan_once_consumes [OF Ok] skip_ws_Cons_length [OF c3]
                 skip_ws_Cons_length [OF c4] l2 f
            have "2 * length s5 + 1 < n" by linarith
            with H3 have "object_loop n s5 (ps @ [(key, v1)]) \<noteq> Deep" by blast
            with k c1 Ok c3 c4 show ?thesis by simp
          qed
        qed
      next
        case Fail
        with k c1 show ?thesis by simp
      next
        case Deep
        from l2 f have "2 * length (skip_ws s2) < n" by simp
        with H1 Deep show ?thesis by blast
      qed
    qed
  qed
qed

lemma fuel_suffices:
  "(\<forall>s. 2 * length s < n \<longrightarrow> scan_once n s \<noteq> Deep)
   \<and> (\<forall>s vs. 2 * length s + 1 < n \<longrightarrow> array_loop n s vs \<noteq> Deep)
   \<and> (\<forall>s ps. 2 * length s + 1 < n \<longrightarrow> object_loop n s ps \<noteq> Deep)"
proof (induction n)
  case 0
  show ?case by simp
next
  case (Suc n)
  then have H1: "\<forall>s. 2 * length s < n \<longrightarrow> scan_once n s \<noteq> Deep"
    and H2: "\<forall>s vs. 2 * length s + 1 < n \<longrightarrow> array_loop n s vs \<noteq> Deep"
    and H3: "\<forall>s ps. 2 * length s + 1 < n \<longrightarrow> object_loop n s ps \<noteq> Deep"
    by simp_all
  show ?case
  proof (intro conjI allI impI)
    fix s :: pystr assume "2 * length s < Suc n"
    then show "scan_once (Suc n) s \<noteq> Deep" by (rule fuel_step(1) [OF H1 H2 H3])
  next
    fix s :: pystr and vs assume "2 * length s + 1 < Suc n"
    then show "array_loop (Suc n) s vs \<noteq> Deep" by (rule fuel_step(2) [OF H1 H2 H3])
  next
    fix s :: pystr and ps assume "2 * length s + 1 < Suc n"
    then show "object_loop (Suc n) s ps \<noteq> Deep" by (rule fuel_step(3) [OF H1 H2 H3])
  qed
qed

lemma json_loads_fuel: "json_loads s \<noteq> Inl RecursionError"
proof -
  have "2 * length (skip_ws s) < 2 * length s + 1"
    using skip_ws_length [of s] by simp
  with fuel_suffices [of "2 * length s + 1"]
  have "scan_once (2 * length s + 1) (skip_ws s) \<noteq> Deep" by blast
  then show ?thesis
    by (cases "scan_once (2 * length s + 1) (skip_ws s)") (simp_all add: json_loads_def)
qed

end
